theory Spec2Isabelle
  imports Complex_Main "HOL-Library.Word"
begin

section \<open>Machine integers and failures\<close>

text \<open>
  Go's \<open>int64\<close> (and \<open>int\<close> on a 64-bit platform) is modelled as \<open>int\<close> with the
  wrap-around of every arithmetic operation written out by \<open>wrap64\<close>. Go's integer
  division truncates toward zero and panics on a zero divisor.
\<close>

type_synonym byte = "8 word"

definition wrap64 :: "int \<Rightarrow> int" where
  "wrap64 x = (x + 2 ^ 63) mod 2 ^ 64 - 2 ^ 63"

definition quo64 :: "int \<Rightarrow> int \<Rightarrow> int" where
  "quo64 a b = wrap64 (sgn a * sgn b * (\<bar>a\<bar> div \<bar>b\<bar>))"

datatype error =
    ErrNotExist | ErrInvalidMagic | ErrDecode | ErrTooManySegments
  | ErrCreate | ErrOpen | ErrWrite

datatype panic = DivideByZero | MakeSliceLen

datatype 'a result = Ok 'a | Fail error | Panic panic

section \<open>Data model of main.go\<close>

record Download =
  position :: int
  size_d :: int
  segmentNum :: int

record ProgressInfo =
  Length :: int
  SegmentSize :: int
  segments :: "bool list"

definition maxSegments :: int where "maxSegments = 50000"
definition finishedSegment :: byte where "finishedSegment = 0x59"
definition baseOffset :: int where "baseOffset = 256"

section \<open>Segment planning\<close>

text \<open>\<open>findSegmentCount\<close>: \<open>(length + segmentSize - 1) / segmentSize\<close> on \<open>int64\<close>.\<close>

definition findSegmentCount :: "int \<Rightarrow> int \<Rightarrow> int result" where
  "findSegmentCount len segSize =
     (if segSize = 0 then Panic DivideByZero
      else Ok (quo64 (wrap64 (wrap64 (len + segSize) - 1)) segSize))"

text \<open>
  The enqueue loop of \<open>download\<close>: \<open>seg\<close> runs over the indices of \<open>info.segments\<close>;
  the list argument is the part of \<open>info.segments\<close> from index \<open>seg\<close> on. The result is
  the sequence of work items sent on the \<open>instructions\<close> channel.
\<close>

fun enqueue :: "ProgressInfo \<Rightarrow> int \<Rightarrow> bool list \<Rightarrow> Download list" where
  "enqueue info seg [] = []"
| "enqueue info seg (done # rest) =
     (if done then enqueue info (seg + 1) rest
      else
        (let pos = wrap64 (seg * SegmentSize info);
             left = (if wrap64 (pos + SegmentSize info) > Length info
                     then wrap64 (Length info - pos) else SegmentSize info)
         in \<lparr>position = pos, size_d = left, segmentNum = seg\<rparr>
              # enqueue info (seg + 1) rest))"

text \<open>The poison item sent once per worker after the segments.\<close>

definition poison :: "ProgressInfo \<Rightarrow> Download" where
  "poison info = \<lparr>position = Length info, size_d = 0, segmentNum = 0\<rparr>"

definition instructions :: "ProgressInfo \<Rightarrow> nat \<Rightarrow> Download list" where
  "instructions info numThreads =
     enqueue info 0 (segments info) @ replicate numThreads (poison info)"

text \<open>The state \<open>setupProgressFile\<close> builds on a clean start: \<open>make([]bool, segmentCount)\<close>.\<close>

definition fresh_info :: "int \<Rightarrow> int \<Rightarrow> int \<Rightarrow> ProgressInfo" where
  "fresh_info len segSize segmentCount =
     \<lparr>Length = len, SegmentSize = segSize, segments = replicate (nat segmentCount) False\<rparr>"

text \<open>The plan as the specification words it: segment \<open>i\<close> spans
  \<open>[i * segmentSize, min ((i + 1) * segmentSize) totalLength)\<close>.\<close>

definition spec_segment :: "int \<Rightarrow> int \<Rightarrow> nat \<Rightarrow> Download" where
  "spec_segment totalLength segmentSize i =
     \<lparr>position = int i * segmentSize,
      size_d = min ((int i + 1) * segmentSize) totalLength - int i * segmentSize,
      segmentNum = int i\<rparr>"

definition spec_plan :: "int \<Rightarrow> int \<Rightarrow> Download list" where
  "spec_plan totalLength segmentSize =
     map (spec_segment totalLength segmentSize)
       [0 ..< nat \<lceil>real_of_int totalLength / real_of_int segmentSize\<rceil>]"

text \<open>
  Tiling of \<open>[a, L)\<close>: every item starts where the previous one ended, is non-empty,
  and the last one ends at \<open>L\<close>; so there is neither a gap nor an overlap.
\<close>

fun tiles_from :: "int \<Rightarrow> int \<Rightarrow> Download list \<Rightarrow> bool" where
  "tiles_from a L [] = (a = L)"
| "tiles_from a L (d # ds) =
     (position d = a \<and> 0 < size_d d \<and> tiles_from (a + size_d d) L ds)"

section \<open>Files\<close>

text \<open>
  The file system the program runs against: the content of every existing path, the paths
  that cannot be created or opened for writing (\<open>os.Create\<close> and \<open>os.OpenFile\<close>
  return an error there), and the paths on which a sequential write fails. A file handle
  is the path it was opened on. \<open>os\<close> and \<open>encoding/gob\<close> belong to Go's standard
  library, not to the repository; their behaviour is modelled from their documentation.
\<close>

record fsys =
  files :: "string \<Rightarrow> byte list option"
  denied :: "string \<Rightarrow> bool"
  wfail :: "string \<Rightarrow> bool"

text \<open>\<open>os.Stat(name)\<close> followed by \<open>Size()\<close>: \<open>None\<close> is the error.\<close>

definition os_Stat :: "fsys \<Rightarrow> string \<Rightarrow> int option" where
  "os_Stat fs name = map_option (\<lambda>c. int (length c)) (files fs name)"

definition os_Create :: "fsys \<Rightarrow> string \<Rightarrow> fsys option" where
  "os_Create fs name =
     (if denied fs name then None else Some (fs\<lparr>files := (files fs)(name \<mapsto> [])\<rparr>))"

definition os_Remove :: "fsys \<Rightarrow> string \<Rightarrow> fsys" where
  "os_Remove fs name = fs\<lparr>files := (files fs)(name := None)\<rparr>"

text \<open>
  \<open>file.WriteAt(b, off)\<close> as the positioned write of the output-sink contract: the
  bytes replace the content from \<open>off\<close> on, and a gap between the old end and \<open>off\<close>
  reads as zero bytes. A negative offset is an error and writes nothing; the callers
  ignore the error. Both files are opened with \<open>os.O_APPEND\<close>; what the runtime does
  with a positioned write on such a handle is outside the program's own code (newer
  releases of the \<open>os\<close> package refuse it with an error, which the callers ignore as
  well), and the model takes the write to land at \<open>off\<close>. The results on the worker
  are stated on the writes it issues, so they do not depend on this.
\<close>

definition WriteAt :: "byte list \<Rightarrow> int \<Rightarrow> byte list \<Rightarrow> byte list" where
  "WriteAt content off b =
     (if off < 0 \<or> b = [] then content
      else (let n = nat off; padded = content @ replicate (n - length content) 0
            in take n padded @ b @ drop (n + length b) padded))"

definition write_file_at :: "fsys \<Rightarrow> string \<Rightarrow> int \<Rightarrow> byte list \<Rightarrow> fsys" where
  "write_file_at fs name off b =
     (case files fs name of None \<Rightarrow> fs
      | Some content \<Rightarrow> fs\<lparr>files := (files fs)(name \<mapsto> WriteAt content off b)\<rparr>)"

text \<open>
  The gob codec of the header \<open>{Length, SegmentSize}\<close> (the unexported field
  \<open>segments\<close> is not encoded). The wire format is a parameter: \<open>Encode\<close> gives the
  bytes \<open>encoder.Encode(&header)\<close> writes, \<open>Decode\<close> reads one value from the bytes that
  follow the magic number (\<open>None\<close> is a decoding error).
\<close>

record gob =
  Encode :: "int \<times> int \<Rightarrow> byte list"
  Decode :: "byte list \<Rightarrow> (int \<times> int) option"

section \<open>The progress file\<close>

definition magic :: "byte list" where
  "magic = [0x4D, 0x55, 0x4C, 0x44]"

definition beginProgressFile :: "gob \<Rightarrow> fsys \<Rightarrow> string \<Rightarrow> int \<Rightarrow> int \<Rightarrow> fsys result" where
  "beginProgressFile g fs filename len segSize =
     (case os_Create fs filename of
        None \<Rightarrow> Fail ErrCreate
      | Some fs1 \<Rightarrow>
          if wfail fs filename then Fail ErrWrite
          else Ok (fs1\<lparr>files := (files fs1)(filename \<mapsto> magic @ Encode g (len, segSize))\<rparr>))"

text \<open>
  The inner loop of \<open>readProgressInfo\<close>:
  \<open>for j := 0; j < numRead && i+j < segmentCount; j++ { segments[i+j] = (buf[j] == 0x59) }\<close>;
  the first argument is \<open>buf[j:numRead]\<close> and the second is \<open>i + j\<close>.
\<close>

fun copy_flags :: "byte list \<Rightarrow> int \<Rightarrow> int \<Rightarrow> bool list \<Rightarrow> bool list" where
  "copy_flags [] ij segmentCount segs = segs"
| "copy_flags (b # buf) ij segmentCount segs =
     (if ij < segmentCount
      then copy_flags buf (ij + 1) segmentCount (segs[nat ij := (b = finishedSegment)])
      else segs)"

text \<open>
  The outer loop: \<open>file.Read(buf[:])\<close> with an 8192-byte buffer returns the next bytes of
  the file, at most 8192 of them, and \<open>(0, io.EOF)\<close> at the end of the file, where the loop
  breaks. The first argument is the unread rest of the file.
\<close>

function read_flags :: "byte list \<Rightarrow> int \<Rightarrow> int \<Rightarrow> bool list \<Rightarrow> bool list" where
  "read_flags rest i segmentCount segs =
     (if i < segmentCount then
        (let buf = take 8192 rest; numRead = int (length buf)
         in if numRead = 0 then segs
            else read_flags (drop 8192 rest) (wrap64 (i + numRead)) segmentCount
                   (copy_flags buf i segmentCount segs))
      else segs)"
  by pat_completeness auto
termination
  by (relation "measure (\<lambda>(rest, i, segmentCount, segs). length rest)") auto

declare read_flags.simps [simp del]

definition readProgressInfo :: "gob \<Rightarrow> fsys \<Rightarrow> string \<Rightarrow> ProgressInfo result" where
  "readProgressInfo g fs filename =
     (case files fs filename of
        None \<Rightarrow> Fail ErrNotExist
      | Some content \<Rightarrow>
          if take 4 content \<noteq> magic then Fail ErrInvalidMagic
          else (case Decode g (drop 4 content) of
                  None \<Rightarrow> Fail ErrDecode
                | Some (len, segSize) \<Rightarrow>
                    (case findSegmentCount len segSize of
                       Panic p \<Rightarrow> Panic p
                     | Fail e \<Rightarrow> Fail e
                     | Ok segmentCount \<Rightarrow>
                         if segmentCount > maxSegments then Fail ErrTooManySegments
                         else if segmentCount < 0 then Panic MakeSliceLen
                         else Ok \<lparr>Length = len, SegmentSize = segSize,
                                  segments = read_flags (drop (nat baseOffset) content) 0 segmentCount
                                               (replicate (nat segmentCount) False)\<rparr>)))"

text \<open>The clean branch of \<open>setupProgressFile\<close>.\<close>

definition clean_start :: "gob \<Rightarrow> fsys \<Rightarrow> string \<Rightarrow> int \<Rightarrow> int \<Rightarrow> (fsys \<times> ProgressInfo \<times> bool) result" where
  "clean_start g fs filename len segSize =
     (case findSegmentCount len segSize of
        Panic p \<Rightarrow> Panic p
      | Fail e \<Rightarrow> Fail e
      | Ok segmentCount \<Rightarrow>
          (case beginProgressFile g fs filename len segSize of
             Panic p \<Rightarrow> Panic p
           | Fail e \<Rightarrow> Fail e
           | Ok fs1 \<Rightarrow>
               if segmentCount < 0 then Panic MakeSliceLen
               else Ok (fs1, fresh_info len segSize segmentCount, True)))"

text \<open>The resume branch: \<open>os.OpenFile(filename, os.O_WRONLY|os.O_APPEND, 0666)\<close>.\<close>

definition resume_start :: "fsys \<Rightarrow> string \<Rightarrow> ProgressInfo \<Rightarrow> (fsys \<times> ProgressInfo \<times> bool) result" where
  "resume_start fs filename info =
     (if files fs filename = None \<or> denied fs filename then Fail ErrOpen
      else Ok (fs, info, False))"

text \<open>
  \<open>setupProgressFile\<close> returns the file system with the progress file opened, the
  state and the flag \<open>clean\<close>. The disjunction
  \<open>err != nil || length != info.Length || findSegmentCount(length, info.SegmentSize) != len(info.segments)\<close>
  is evaluated left to right and stops at the first true disjunct.
\<close>

definition setupProgressFile :: "gob \<Rightarrow> fsys \<Rightarrow> string \<Rightarrow> int \<Rightarrow> int \<Rightarrow> bool \<Rightarrow> (fsys \<times> ProgressInfo \<times> bool) result" where
  "setupProgressFile g fs filename len segSize forceClean =
     (if \<not> forceClean then
        (case readProgressInfo g fs filename of
           Panic p \<Rightarrow> Panic p
         | Fail e \<Rightarrow> clean_start g fs filename len segSize
         | Ok info \<Rightarrow>
             if len \<noteq> Length info then clean_start g fs filename len segSize
             else (case findSegmentCount len (SegmentSize info) of
                     Panic p \<Rightarrow> Panic p
                   | Fail e \<Rightarrow> Fail e
                   | Ok c \<Rightarrow>
                       if c \<noteq> int (length (segments info))
                       then clean_start g fs filename len segSize
                       else resume_start fs filename info))
      else clean_start g fs filename len segSize)"

section \<open>The supervisor\<close>

text \<open>
  \<open>os.OpenFile(filename, os.O_RDWR|os.O_APPEND|os.O_CREATE [|os.O_TRUNC], 0666)\<close> on the
  output file.
\<close>

definition open_output :: "fsys \<Rightarrow> string \<Rightarrow> bool \<Rightarrow> fsys option" where
  "open_output fs filename trunc =
     (if denied fs filename then None
      else if trunc \<or> files fs filename = None
        then Some (fs\<lparr>files := (files fs)(filename \<mapsto> [])\<rparr>)
        else Some fs)"

text \<open>
  \<open>download\<close> up to the point where the instructions have been handed out. \<open>len\<close> is
  the length \<open>findFileLength\<close> probed. \<open>Started\<close> carries the file system after both
  files were opened, the state, the flag \<open>truncate\<close>, the number of workers started and
  the items sent on the channel \<open>instructions\<close>, in order. \<open>AlreadyDownloaded\<close> is the early
  return: no worker was started, and the deferred \<open>os.Remove(progressFilename)\<close> has run.
\<close>

datatype run =
    AlreadyDownloaded fsys
  | ExitFailure error
  | Crashed panic
  | Started fsys ProgressInfo bool nat "Download list"

definition progressFilename :: "string \<Rightarrow> string" where
  "progressFilename filename = filename @ ''.multidownload''"

definition download :: "gob \<Rightarrow> fsys \<Rightarrow> int \<Rightarrow> string \<Rightarrow> nat \<Rightarrow> run" where
  "download g fs len filename numThreads =
     (let err = os_Stat fs filename; progerr = os_Stat fs (progressFilename filename)
      in if err = Some len \<and> progerr = None
         then AlreadyDownloaded (os_Remove fs (progressFilename filename))
         else (case setupProgressFile g fs (progressFilename filename) len 1000000 (err = None) of
                 Fail e \<Rightarrow> ExitFailure e
               | Panic p \<Rightarrow> Crashed p
               | Ok (fs1, info, trunc) \<Rightarrow>
                   (case open_output fs1 filename trunc of
                      None \<Rightarrow> ExitFailure ErrOpen
                    | Some fs2 \<Rightarrow>
                        Started fs2 info trunc numThreads (instructions info numThreads))))"

fun workers_started :: "run \<Rightarrow> nat" where
  "workers_started (Started fs info trunc n ins) = n"
| "workers_started r = 0"

text \<open>
  Marking a segment done, as \<open>download_segments\<close> does it:
  \<open>buf[0] = finishedSegment; progressFile.WriteAt(buf[:1], baseOffset+int64(down.segmentNum))\<close>.
\<close>

definition markSegmentDone :: "fsys \<Rightarrow> string \<Rightarrow> int \<Rightarrow> fsys" where
  "markSegmentDone fs pf segNum =
     write_file_at fs pf (wrap64 (baseOffset + segNum)) [finishedSegment]"

text \<open>
  A sample codec, used to run the model on concrete files: each field as eight
  big-endian bytes in two's complement. It stands in for gob where a closed term is
  needed; no theorem below depends on its format.
\<close>

definition be8 :: "int \<Rightarrow> byte list" where
  "be8 x = map (\<lambda>i. word_of_int (x div 256 ^ (7 - i))) [0 ..< 8]"

definition of_be8 :: "byte list \<Rightarrow> int" where
  "of_be8 bs = wrap64 (foldl (\<lambda>a b. a * 256 + uint b) 0 bs)"

definition sample_gob :: gob where
  "sample_gob =
     \<lparr>Encode = (\<lambda>(len, segSize). be8 len @ be8 segSize),
      Decode = (\<lambda>bs. if length bs < 16 then None
                     else Some (of_be8 (take 8 bs), of_be8 (take 8 (drop 8 bs))))\<rparr>"

definition empty_fs :: fsys where
  "empty_fs = \<lparr>files = (\<lambda>name. None), denied = (\<lambda>name. False), wfail = (\<lambda>name. False)\<rparr>"

section \<open>The fetch worker\<close>

text \<open>
  \<open>http.NewRequest("GET", url, nil)\<close> fails only on a URL that does not parse, and
  \<open>findFileLength\<close> has already sent a request to the same URL, so the branch that exits
  there is not reached and not modelled.
  What \<open>client.Do(req)\<close> returns: a transport error, or a response with its status code
  and body. The body is the sequence of results of \<open>resp.Body.Read(buf[:])\<close>: the bytes
  read into the 8192-byte buffer and whether \<open>err\<close> is non-nil; after the last element
  every further \<open>Read\<close> returns \<open>(0, io.EOF)\<close>.
\<close>

datatype response = TransportError | Response int "(byte list \<times> bool) list"

text \<open>The local variables of \<open>download_segments\<close> that live across iterations.\<close>

record worker =
  finished :: bool
  down :: Download
  total :: int
  errorCount :: int

definition init_worker :: worker where
  "init_worker =
     \<lparr>finished = True, down = \<lparr>position = 0, size_d = 0, segmentNum = 0\<rparr>,
      total = 0, errorCount = 0\<rparr>"

text \<open>
  What a worker does to the outside: receiving an item from \<open>instructions\<close>, a GET with
  header \<open>Range: bytes=first-last\<close>, \<open>file.WriteAt(buf[:n], off)\<close> on the output file, a
  \<open>ProgressUpdate{threadnum, downloaded}\<close> sent on \<open>updates\<close>,
  \<open>progressFile.WriteAt(buf[:1], off)\<close> with \<open>buf[0] = finishedSegment\<close>, and
  \<open>os.Exit(1)\<close>.
\<close>

datatype event =
    Recv Download
  | Request int int
  | WriteOut int "byte list"
  | Update nat int
  | MarkDone int
  | Exit1

text \<open>
  How a run of one worker ends: it received the poison item, it exited the process, or the
  script of its environment ran out while it was waiting for an item or for a response.
\<close>

datatype ending = Stopped | Fatal | AwaitInstruction | AwaitResponse

text \<open>The loop \<open>for read < down.size { ... }\<close>.\<close>

fun read_body :: "nat \<Rightarrow> Download \<Rightarrow> int \<Rightarrow> int \<Rightarrow> (byte list \<times> bool) list
    \<Rightarrow> event list \<times> int \<times> int" where
  "read_body threadnum d rd tot [] = ([], rd, tot)"
| "read_body threadnum d rd tot ((bs, err) # reads) =
     (if rd < size_d d then
        (if bs = [] \<and> err then ([], rd, tot)
         else (let n = int (length bs);
                   rd' = wrap64 (rd + n);
                   tot' = wrap64 (tot + n);
                   (evs, r, t) = read_body threadnum d rd' tot' reads
               in (WriteOut (wrap64 (position d + rd)) bs # Update threadnum tot' # evs, r, t)))
      else ([], rd, tot))"

text \<open>The header \<open>Range: bytes=%d-%d\<close> with \<open>down.position, down.position+down.size-1\<close>.\<close>

definition range_request :: "Download \<Rightarrow> event" where
  "range_request d =
     Request (position d) (wrap64 (wrap64 (position d + size_d d) - 1))"

text \<open>
  The branch \<open>err != nil || (resp.StatusCode != 206 && resp.StatusCode != 200)\<close>: the
  result is the events, the worker and whether the process exited.
\<close>

definition on_failure :: "worker \<Rightarrow> event list \<times> worker \<times> bool" where
  "on_failure w =
     (let w' = w\<lparr>errorCount := wrap64 (errorCount w + 1)\<rparr>
      in if errorCount w' > 3 then ([range_request (down w), Exit1], w', True)
         else ([range_request (down w)], w', False))"

text \<open>The rest of the loop body, from \<open>errorCount = 0\<close> on.\<close>

definition on_success :: "nat \<Rightarrow> worker \<Rightarrow> (byte list \<times> bool) list
    \<Rightarrow> event list \<times> worker \<times> bool" where
  "on_success threadnum w body =
     (let d = down w;
          (evs, rd, tot) = read_body threadnum d 0 (total w) body;
          w1 = w\<lparr>errorCount := 0, total := tot\<rparr>
      in if rd \<ge> size_d d
         then (range_request d # evs @ [MarkDone (wrap64 (baseOffset + segmentNum d))],
               w1\<lparr>finished := True\<rparr>, False)
         else (range_request d # evs,
               w1\<lparr>down := d\<lparr>position := wrap64 (position d + rd),
                                size_d := wrap64 (size_d d - rd)\<rparr>\<rparr>, False))"

fun attempt :: "nat \<Rightarrow> worker \<Rightarrow> response \<Rightarrow> event list \<times> worker \<times> bool" where
  "attempt threadnum w TransportError = on_failure w"
| "attempt threadnum w (Response StatusCode body) =
     (if StatusCode \<noteq> 206 \<and> StatusCode \<noteq> 200 then on_failure w
      else on_success threadnum w body)"

text \<open>
  The head of the loop: \<open>if finished { down = <-instructions; if down.size == 0 { break };
  finished = false }\<close>.
\<close>

datatype received =
    Break "event list" worker
  | Block
  | Go "event list" worker "Download list"

definition receive :: "worker \<Rightarrow> Download list \<Rightarrow> received" where
  "receive w ins =
     (if finished w then
        (case ins of
           [] \<Rightarrow> Block
         | d # ins' \<Rightarrow>
             if size_d d = 0 then Break [Recv d] (w\<lparr>down := d\<rparr>)
             else Go [Recv d] (w\<lparr>down := d, finished := False\<rparr>) ins')
      else Go [] w ins)"

text \<open>
  \<open>download_segments\<close>, run against the items this worker receives and the responses
  its requests get. Every iteration that sends a request consumes one response, so the
  recursion is on the responses.
\<close>

fun download_segments :: "nat \<Rightarrow> worker \<Rightarrow> Download list \<Rightarrow> response list
    \<Rightarrow> event list \<times> ending \<times> worker" where
  "download_segments threadnum w ins [] =
     (case receive w ins of
        Block \<Rightarrow> ([], AwaitInstruction, w)
      | Break ev w' \<Rightarrow> (ev, Stopped, w')
      | Go ev w' ins' \<Rightarrow> (ev, AwaitResponse, w'))"
| "download_segments threadnum w ins (r # rs) =
     (case receive w ins of
        Block \<Rightarrow> ([], AwaitInstruction, w)
      | Break ev w' \<Rightarrow> (ev, Stopped, w')
      | Go ev w' ins' \<Rightarrow>
          (case attempt threadnum w' r of
             (ev2, w2, True) \<Rightarrow> (ev @ ev2, Fatal, w2)
           | (ev2, w2, False) \<Rightarrow>
               (case download_segments threadnum w2 ins' rs of
                  (evs, e, w3) \<Rightarrow> (ev @ ev2 @ evs, e, w3))))"

text \<open>
  A fetch attempt that the worker counts as failed, in \<open>main.go\<close>: a transport error, or
  a status that is neither 206 nor 200.
\<close>

fun attempt_failed :: "response \<Rightarrow> bool" where
  "attempt_failed TransportError = True"
| "attempt_failed (Response StatusCode body) = (StatusCode \<noteq> 206 \<and> StatusCode \<noteq> 200)"

text \<open>
  The same condition in the other copy of the program (\<open>src/unnamed/part_000\<close>):
  \<open>err != nil || resp.StatusCode != 206\<close>.
\<close>

fun attempt_failed_206 :: "response \<Rightarrow> bool" where
  "attempt_failed_206 TransportError = True"
| "attempt_failed_206 (Response StatusCode body) = (StatusCode \<noteq> 206)"

text \<open>
  Well-formed scripts: \<open>Read\<close> returns at most the 8192 bytes of the buffer. A body
  \<open>streams on\<close> when none of its reads is the terminating one (no bytes and an error),
  so that it ends only where the list ends.
\<close>

definition body_ok :: "(byte list \<times> bool) list \<Rightarrow> bool" where
  "body_ok body = list_all (\<lambda>(bs, err). length bs \<le> 8192) body"

fun response_ok :: "response \<Rightarrow> bool" where
  "response_ok TransportError = True"
| "response_ok (Response StatusCode body) = body_ok body"

definition streams_on :: "(byte list \<times> bool) list \<Rightarrow> bool" where
  "streams_on body = list_all (\<lambda>(bs, err). \<not> (bs = [] \<and> err)) body"

definition body_bytes :: "(byte list \<times> bool) list \<Rightarrow> int" where
  "body_bytes body = sum_list (map (\<lambda>(bs, err). int (length bs)) body)"

text \<open>
  A work item whose offsets stay within \<open>int64\<close>, with room for the part of a last
  buffer that lies beyond the end of the range.
\<close>

definition item_ok :: "Download \<Rightarrow> bool" where
  "item_ok d \<longleftrightarrow>
     0 \<le> position d \<and> position d + size_d d + 8192 \<le> 2 ^ 63 \<and>
     0 \<le> segmentNum d \<and> segmentNum d < 2 ^ 62"

fun is_request :: "event \<Rightarrow> bool" where
  "is_request (Request a b) = True"
| "is_request e = False"

text \<open>
  The property of a trace that C3 asks for. \<open>cur\<close> is the item received last and not
  yet marked, \<open>hi\<close> the offset up to which the writes issued since it was received cover
  the output file without a gap, starting at the item's position. A mark is justified when
  it is the mark of the current item (offset \<open>baseOffset + segmentNum\<close>) and the writes
  cover the whole range of the item; after it the item is no longer current, so a second
  mark for the same item is not justified.
\<close>

fun marks_ok :: "Download option \<Rightarrow> int \<Rightarrow> event list \<Rightarrow> bool" where
  "marks_ok cur hi [] = True"
| "marks_ok cur hi (Recv d # es) = marks_ok (Some d) (position d) es"
| "marks_ok cur hi (WriteOut off bs # es) =
     marks_ok cur (if off \<le> hi then max hi (off + int (length bs)) else hi) es"
| "marks_ok cur hi (MarkDone off # es) =
     (case cur of
        None \<Rightarrow> False
      | Some d \<Rightarrow>
          off = baseOffset + segmentNum d \<and> position d + size_d d \<le> hi \<and>
          marks_ok None hi es)"
| "marks_ok cur hi (e # es) = marks_ok cur hi es"

text \<open>
  Entry \<open>j\<close> of the bitmap as \<open>readProgressInfo\<close> reads it from the content of the
  progress file, and what an event of a worker does to that content.
\<close>

definition segment_done :: "byte list \<Rightarrow> nat \<Rightarrow> bool" where
  "segment_done content j \<longleftrightarrow>
     nat baseOffset + j < length content \<and> content ! (nat baseOffset + j) = finishedSegment"

fun progress_effect :: "event \<Rightarrow> byte list \<Rightarrow> byte list" where
  "progress_effect (MarkDone off) content = WriteAt content off [finishedSegment]"
| "progress_effect e content = content"

text \<open>
  The invariant that relates a worker to the item \<open>cur\<close> it received and the covered
  offset \<open>hi\<close> of \<open>marks_ok\<close>: an idle worker is related to anything; a worker in
  flight holds the unread rest of the current item, which starts at \<open>hi\<close> and ends where
  the item ends.
\<close>

definition tracks :: "worker \<Rightarrow> Download option \<Rightarrow> int \<Rightarrow> bool" where
  "tracks w cur hi \<longleftrightarrow>
     finished w \<or>
     (\<exists>d0. cur = Some d0 \<and> hi = position (down w) \<and>
        position (down w) + size_d (down w) = position d0 + size_d d0 \<and>
        segmentNum (down w) = segmentNum d0 \<and> item_ok (down w))"

text \<open>
  The other copy of the program (\<open>src/unnamed/part_000\<close>) opens the output file with
  \<open>os.O_RDWR|os.O_APPEND|os.O_CREATE\<close> whether or not the start is clean.
\<close>

definition open_output_part000 :: "fsys \<Rightarrow> string \<Rightarrow> fsys option" where
  "open_output_part000 fs filename =
     (if denied fs filename then None
      else if files fs filename = None
        then Some (fs\<lparr>files := (files fs)(filename \<mapsto> [])\<rparr>)
        else Some fs)"

section \<open>Arithmetic facts\<close>

lemma wrap64_id: "- (2 ^ 63) \<le> x \<Longrightarrow> x < 2 ^ 63 \<Longrightarrow> wrap64 x = x"
  by (simp add: wrap64_def)

lemma quo64_nonneg: "0 \<le> a \<Longrightarrow> 0 < b \<Longrightarrow> a < 2 ^ 63 \<Longrightarrow> quo64 a b = a div b"
proof -
  assume a: "0 \<le> a" and b: "0 < b" and c: "a < 2 ^ 63"
  have d: "0 \<le> a div b" using a b by (simp add: pos_imp_zdiv_nonneg_iff)
  have "a div b \<le> a" using a b
    by (metis div_by_1 int_one_le_iff_zero_less zdiv_mono2 zero_less_one)
  then have e: "a div b < 2 ^ 63" using c by linarith
  have "sgn a * sgn b * (\<bar>a\<bar> div \<bar>b\<bar>) = a div b"
    using a b by (cases "a = 0") (simp_all add: sgn_if)
  then show ?thesis using d e by (simp add: quo64_def wrap64_id)
qed

lemma neg_div:
  assumes "0 < (S::int)"
  shows "- (- L div S) = (L + S - 1) div S"
proof -
  define q where "q = L div S"
  define r where "r = L mod S"
  have L: "L = S * q + r" by (simp add: q_def r_def)
  have r: "0 \<le> r" "r < S" using assms by (simp_all add: r_def)
  show ?thesis
  proof (cases "r = 0")
    case True
    have "- L = S * (- q) + 0" using True L by simp
    then have a: "- L div S = - q" using assms
      by (intro int_div_pos_eq[where r = 0]) auto
    have "L + S - 1 = S * q + (S - 1)" using True L by simp
    then have b: "(L + S - 1) div S = q" using assms
      by (intro int_div_pos_eq[where r = "S - 1"]) auto
    show ?thesis using a b by simp
  next
    case False
    have "- L = S * (- (q + 1)) + (S - r)" using L by (simp add: algebra_simps)
    then have a: "- L div S = - (q + 1)" using r False
      by (intro int_div_pos_eq[where r = "S - r"]) auto
    have "L + S - 1 = S * (q + 1) + (r - 1)" using L by (simp add: algebra_simps)
    then have b: "(L + S - 1) div S = q + 1" using r False
      by (intro int_div_pos_eq[where r = "r - 1"]) auto
    show ?thesis using a b by simp
  qed
qed

lemma count_ok:
  assumes "0 \<le> L" "0 < S" "L + S \<le> 2 ^ 63"
  shows "findSegmentCount L S = Ok \<lceil>real_of_int L / real_of_int S\<rceil>"
proof -
  have 2: "wrap64 (wrap64 (L + S) - 1) = L + S - 1"
  proof (cases "L + S = 2^63")
    case True
    then show ?thesis by (simp add: wrap64_def)
  next
    case False
    then have "wrap64 (L+S) = L + S" using assms by (simp add: wrap64_id)
    then show ?thesis using assms by (simp add: wrap64_id)
  qed
  have 3: "quo64 (L + S - 1) S = (L + S - 1) div S" using assms by (intro quo64_nonneg) auto
  show ?thesis using assms 2 3 neg_div[of S L] by (simp add: findSegmentCount_def ceiling_divide_eq_div)
qed

lemma enqueue_fresh:
  assumes "0 < S" "L + S \<le> 2 ^ 63" "Length info = L" "SegmentSize info = S"
    and "(int k + int m) * S < L + S"
  shows "enqueue info (int k) (replicate m False) = map (spec_segment L S) [k ..< k + m]"
  using assms(5)
proof (induction m arbitrary: k)
  case 0
  then show ?case by simp
next
  case (Suc m)
  have m0: "0 \<le> int m * S" using assms(1) by simp
  have kS: "int k * S < L" using Suc.prems m0 by (simp add: algebra_simps)
  have nn: "0 \<le> int k * S" using assms(1) by simp
  have w1: "wrap64 (int k * S) = int k * S"
    using kS nn assms(1,2) by (intro wrap64_id; linarith)
  have w2: "wrap64 (int k * S + S) = int k * S + S"
    using kS nn assms(1,2) by (intro wrap64_id; linarith)
  have w3: "wrap64 (L - int k * S) = L - int k * S"
    using kS nn assms(1,2) by (intro wrap64_id; linarith)
  have step: "(int (Suc k) + int m) * S < L + S" using Suc.prems by (simp add: algebra_simps)
  have IH: "enqueue info (int k + 1) (replicate m False) = map (spec_segment L S) [Suc k ..< Suc k + m]"
    using Suc.IH[OF step] by (simp add: add.commute)
  have hd: "\<lparr>position = int k * S,
             size_d = (if int k * S + S > L then L - int k * S else S),
             segmentNum = int k\<rparr> = spec_segment L S k"
    by (simp add: spec_segment_def min_def algebra_simps)
  have up: "[k ..< k + Suc m] = k # [Suc k ..< Suc k + m]" by (simp add: upt_conv_Cons)
  have e1: "enqueue info (int k) (replicate (Suc m) False) =
      \<lparr>position = int k * S,
       size_d = (if int k * S + S > L then L - int k * S else S),
       segmentNum = int k\<rparr> # enqueue info (int k + 1) (replicate m False)"
    using w1 w2 w3 assms(3,4) by (simp add: Let_def split del: if_split cong: if_cong)
  show ?case by (simp only: e1 hd IH up list.map)
qed

lemma tiles_spec:
  assumes "0 < S" "(int k + int m) * S < L + S" "L \<le> (int k + int m) * S"
  shows "tiles_from (min (int k * S) L) L (map (spec_segment L S) [k ..< k + m])"
  using assms(2,3)
proof (induction m arbitrary: k)
  case 0
  then show ?case by (simp add: min_def)
next
  case (Suc m)
  have m0: "0 \<le> int m * S" using assms(1) by simp
  have kS: "int k * S < L" using Suc.prems(1) m0 by (simp add: algebra_simps)
  have step1: "(int (Suc k) + int m) * S < L + S" using Suc.prems by (simp add: algebra_simps)
  have step2: "L \<le> (int (Suc k) + int m) * S" using Suc.prems by (simp add: algebra_simps)
  have IH: "tiles_from (min (int (Suc k) * S) L) L (map (spec_segment L S) [Suc k ..< Suc k + m])"
    using Suc.IH[OF step1 step2] .
  have up: "[k ..< k + Suc m] = k # [Suc k ..< Suc k + m]" by (simp add: upt_conv_Cons)
  have p: "position (spec_segment L S k) = min (int k * S) L"
    using kS by (simp add: spec_segment_def min_def)
  have sz: "0 < size_d (spec_segment L S k)"
    using kS assms(1) by (simp add: spec_segment_def min_def algebra_simps)
  have nx: "min (int k * S) L + size_d (spec_segment L S k) = min (int (Suc k) * S) L"
    using kS by (simp add: spec_segment_def min_def algebra_simps)
  show ?case using IH p sz nx by (simp only: up list.map tiles_from.simps)
qed

lemma count_bounds:
  assumes "0 \<le> L" "0 < S"
  shows "int (nat \<lceil>real_of_int L / real_of_int S\<rceil>) = (L + S - 1) div S"
    and "((L + S - 1) div S) * S < L + S" and "L \<le> ((L + S - 1) div S) * S"
proof -
  have "0 \<le> (L + S - 1) div S" using assms by (simp add: pos_imp_zdiv_nonneg_iff)
  then show "int (nat \<lceil>real_of_int L / real_of_int S\<rceil>) = (L + S - 1) div S"
    using neg_div[OF assms(2), of L] by (simp add: ceiling_divide_eq_div)
  have a: "(L + S - 1) div S * S + (L + S - 1) mod S = L + S - 1" by simp
  have b: "0 \<le> (L + S - 1) mod S" "(L + S - 1) mod S < S" using assms by simp_all
  show "((L + S - 1) div S) * S < L + S" using a b by linarith
  show "L \<le> ((L + S - 1) div S) * S" using a b by linarith
qed

section \<open>C1: the segment plan\<close>

text \<open>
  C1, as amended. For \<open>0 \<le> L\<close>, \<open>0 < S\<close> and \<open>L + S - 1\<close> within \<open>int64\<close>
  (\<open>L + S \<le> 2 ^ 63\<close>): \<open>findSegmentCount\<close> returns \<open>\<lceil>L / S\<rceil>\<close>, the work items the
  supervisor enqueues from the fresh all-pending state are exactly the plan of the
  specification (segment \<open>i\<close> at offset \<open>i * S\<close> with length
  \<open>min ((i + 1) * S) L - i * S\<close>), there are \<open>\<lceil>L / S\<rceil>\<close> of them, and they tile \<open>[0, L)\<close>
  contiguously with neither gap nor overlap.
\<close>

theorem segment_plan_tiles:
  assumes "0 \<le> L" "0 < S" "L + S \<le> 2 ^ 63"
  shows "findSegmentCount L S = Ok \<lceil>real_of_int L / real_of_int S\<rceil> \<and>
         enqueue (fresh_info L S \<lceil>real_of_int L / real_of_int S\<rceil>) 0
           (segments (fresh_info L S \<lceil>real_of_int L / real_of_int S\<rceil>)) = spec_plan L S \<and>
         int (length (spec_plan L S)) = \<lceil>real_of_int L / real_of_int S\<rceil> \<and>
         tiles_from 0 L (spec_plan L S)"
proof -
  define n where "n = nat \<lceil>real_of_int L / real_of_int S\<rceil>"
  have c0: "0 \<le> \<lceil>real_of_int L / real_of_int S\<rceil>"
    using assms by (simp add: ceiling_divide_eq_div neg_div pos_imp_zdiv_nonneg_iff)
  have n: "int n = (L + S - 1) div S" unfolding n_def using count_bounds(1)[OF assms(1,2)] .
  have b1: "(int 0 + int n) * S < L + S" using count_bounds(2)[OF assms(1,2)] n by simp
  have b2: "L \<le> (int 0 + int n) * S" using count_bounds(3)[OF assms(1,2)] n by simp
  have 1: "findSegmentCount L S = Ok \<lceil>real_of_int L / real_of_int S\<rceil>"
    using count_ok[OF assms] .
  have 2: "enqueue (fresh_info L S (int n)) (int 0) (replicate n False) = map (spec_segment L S) [0 ..< 0 + n]"
    by (rule enqueue_fresh[OF assms(2,3) _ _ b1]) (simp_all add: fresh_info_def)
  have 3: "tiles_from (min (int 0 * S) L) L (map (spec_segment L S) [0 ..< 0 + n])"
    by (rule tiles_spec[OF assms(2) b1 b2])
  have cn: "\<lceil>real_of_int L / real_of_int S\<rceil> = int n" using c0 by (simp add: n_def)
  show ?thesis using 1 2 3 assms(1) 
    by (simp add: spec_plan_def cn fresh_info_def n_def[symmetric])
qed

text \<open>The example of the specification: 2,500,000 bytes in segments of 1,000,000.\<close>

theorem segment_plan_tiles_witness:
  "(0::int) \<le> 2500000 \<and> (0::int) < 1000000 \<and> (2500000::int) + 1000000 \<le> 2 ^ 63 \<and>
   findSegmentCount 2500000 1000000 = Ok 3 \<and>
   enqueue (fresh_info 2500000 1000000 3) 0 (segments (fresh_info 2500000 1000000 3)) =
     [\<lparr>position = 0, size_d = 1000000, segmentNum = 0\<rparr>,
      \<lparr>position = 1000000, size_d = 1000000, segmentNum = 1\<rparr>,
      \<lparr>position = 2000000, size_d = 500000, segmentNum = 2\<rparr>] \<and>
   tiles_from 0 2500000 (spec_plan 2500000 1000000)"
proof -
  have c: "\<lceil>real_of_int 2500000 / real_of_int 1000000\<rceil> = 3" by simp
  have p: "spec_plan 2500000 1000000 =
     [\<lparr>position = 0, size_d = 1000000, segmentNum = 0\<rparr>,
      \<lparr>position = 1000000, size_d = 1000000, segmentNum = 1\<rparr>,
      \<lparr>position = 2000000, size_d = 500000, segmentNum = 2\<rparr>]"
    unfolding spec_plan_def c by (simp add: spec_segment_def upt_rec)
  show ?thesis using segment_plan_tiles[of 2500000 1000000] unfolding c p by simp
qed

text \<open>
  C1 as stated fails where \<open>length + segmentSize - 1\<close> leaves \<open>int64\<close>: for a length of
  \<open>2 ^ 63 - 1\<close> and the default segment size the sum wraps around and the count is
  negative, not the ceiling.
\<close>

theorem segment_count_overflow_counterexample:
  "findSegmentCount (2 ^ 63 - 1) 1000000 = Ok (- 9223372036853) \<and>
   \<lceil>real_of_int (2 ^ 63 - 1) / real_of_int 1000000\<rceil> = 9223372036855"
  by (simp add: findSegmentCount_def quo64_def wrap64_def sgn_if ceiling_divide_eq_div)

section \<open>Reading the bitmap\<close>

lemma copy_flags_length: "length segs = nat n \<Longrightarrow> length (copy_flags buf ij n segs) = length segs"
  by (induction buf ij n segs rule: copy_flags.induct) auto

lemma copy_flags_nth:
  assumes "0 \<le> ij" "k < length segs" "length segs = nat n"
  shows "copy_flags buf ij n segs ! k =
           (if nat ij \<le> k \<and> k < nat ij + length buf then buf ! (k - nat ij) = finishedSegment
            else segs ! k)"
  using assms
proof (induction buf ij n segs rule: copy_flags.induct)
  case (1 ij n segs)
  then show ?case by auto
next
  case (2 b buf ij n segs)
  show ?case
  proof (cases "ij < n")
    case True
    have ij: "nat (ij + 1) = Suc (nat ij)" using "2.prems" by simp
    have lt: "nat ij < length segs" using True "2.prems" by simp
    have IH: "copy_flags buf (ij + 1) n (segs[nat ij := (b = finishedSegment)]) ! k =
       (if Suc (nat ij) \<le> k \<and> k < Suc (nat ij) + length buf
        then buf ! (k - Suc (nat ij)) = finishedSegment
        else segs[nat ij := (b = finishedSegment)] ! k)"
      using "2.IH"[OF True] "2.prems" by (simp add: ij)
    show ?thesis
    proof (cases "k = nat ij")
      case True
      then show ?thesis using IH \<open>ij < n\<close> lt by simp
    next
      case False
      then show ?thesis using IH \<open>ij < n\<close> lt
        by (auto simp: nth_Cons' Suc_diff_Suc elim: less_SucE)
    qed
  next
    case False
    then have "length segs \<le> nat ij" using "2.prems" by simp
    then show ?thesis using False "2.prems" by simp
  qed
qed

lemma read_flags_length:
  "length segs = nat n \<Longrightarrow> length (read_flags rest i n segs) = length segs"
proof (induction rest i n segs rule: read_flags.induct)
  case (1 rest i n segs)
  show ?case
  proof (cases "i < n \<and> rest \<noteq> []")
    case True
    then show ?thesis using 1
      by (subst read_flags.simps) (simp add: copy_flags_length Let_def)
  next
    case False
    then show ?thesis by (subst read_flags.simps) (auto simp: Let_def)
  qed
qed

lemma read_flags_nth:
  assumes "0 \<le> i" "k < length segs" "length segs = nat n" "n \<le> 2 ^ 62"
  shows "read_flags rest i n segs ! k =
           (if nat i \<le> k \<and> k < nat i + length rest then rest ! (k - nat i) = finishedSegment
            else segs ! k)"
  using assms
proof (induction rest i n segs rule: read_flags.induct)
  case (1 rest i n segs)
  show ?case
  proof (cases "i < n \<and> rest \<noteq> []")
    case False
    then show ?thesis using "1.prems" by (subst read_flags.simps) (auto simp: Let_def)
  next
    case True
    define buf where "buf = take 8192 rest"
    define i' where "i' = i + int (length buf)"
    have bl: "length buf \<le> 8192" "buf \<noteq> []" "length buf \<le> length rest" using True by (auto simp: buf_def)
    have w: "wrap64 (i + int (length buf)) = i'"
      unfolding i'_def using "1.prems" True bl by (intro wrap64_id) auto
    have unf: "read_flags rest i n segs =
        read_flags (drop 8192 rest) i' n (copy_flags buf i n segs)"
      using True bl w by (subst read_flags.simps) (simp add: Let_def buf_def)
    have len: "length (copy_flags buf i n segs) = nat n"
      using "1.prems" by (simp add: copy_flags_length)
    have IH: "read_flags (drop 8192 rest) i' n (copy_flags buf i n segs) ! k =
       (if nat i' \<le> k \<and> k < nat i' + length (drop 8192 rest)
        then drop 8192 rest ! (k - nat i') = finishedSegment
        else copy_flags buf i n segs ! k)"
      using "1.IH"[of buf "int (length buf)"] True bl "1.prems" len w
      by (simp add: buf_def i'_def)
    have cf: "copy_flags buf i n segs ! k =
       (if nat i \<le> k \<and> k < nat i + length buf then buf ! (k - nat i) = finishedSegment
        else segs ! k)"
      using "1.prems" by (intro copy_flags_nth) auto
    have ni': "nat i' = nat i + length buf" using "1.prems" by (simp add: i'_def nat_add_distrib)
    show ?thesis
    proof (cases "nat i \<le> k \<and> k < nat i + length rest")
      case False
      then show ?thesis using unf IH cf ni' bl by auto
    next
      case inr: True
      show ?thesis
      proof (cases "k < nat i + length buf")
        case True
        then have "buf ! (k - nat i) = rest ! (k - nat i)" using inr by (simp add: buf_def)
        then show ?thesis using unf IH cf ni' True inr by simp
      next
        case False
        then have l8: "length buf = 8192" using inr bl by (auto simp: buf_def min_def split: if_splits)
        have B: "drop 8192 rest ! (k - nat i') = rest ! (k - nat i)"
          using False inr ni' l8 by (simp add: add.commute)
        have A: "nat i' \<le> k \<and> k < nat i' + length (drop 8192 rest)"
          using inr ni' l8 False by simp
        have r: "read_flags (drop 8192 rest) i' n (copy_flags buf i n segs) ! k =
                   (drop 8192 rest ! (k - nat i') = finishedSegment)"
          by (simp only: IH if_P[OF A])
        show ?thesis by (simp only: unf r B if_P[OF inr])
      qed
    qed
  qed
qed

section \<open>Positioned writes and marks\<close>

lemma WriteAt1_length:
  "0 \<le> off \<Longrightarrow> length (WriteAt c off [b]) = max (length c) (nat off + 1)"
  by (auto simp: WriteAt_def Let_def min_def max_def)

lemma WriteAt1_nth:
  assumes "0 \<le> off" "i < max (length c) (nat off + 1)"
  shows "WriteAt c off [b] ! i = (if i = nat off then b else if i < length c then c ! i else 0)"
proof -
  define n where "n = nat off"
  define padded where "padded = c @ replicate (n - length c) 0"
  have W: "WriteAt c off [b] = take n padded @ b # drop (Suc n) padded"
    using assms(1) by (simp add: WriteAt_def Let_def n_def padded_def)
  have lp: "n \<le> length padded" by (simp add: padded_def)
  have lt: "length (take n padded) = n" using lp by simp
  have pn: "\<And>j. j < length padded \<Longrightarrow> padded ! j = (if j < length c then c ! j else 0)"
    by (auto simp: padded_def nth_append)
  show ?thesis
  proof (cases "i < n")
    case True
    then have "WriteAt c off [b] ! i = padded ! i" using lt by (simp add: W nth_append)
    then show ?thesis using True pn[of i] lp by (simp add: n_def[symmetric])
  next
    case False
    show ?thesis
    proof (cases "i = n")
      case True
      then show ?thesis using lt by (simp add: W nth_append n_def[symmetric])
    next
      case ne: False
      then have gt: "n < i" using False by simp
      then have il: "i < length c" using assms(2) by (simp add: n_def max_def split: if_splits)
      then have pc: "padded = c" using gt by (simp add: padded_def)
      have "WriteAt c off [b] ! i = (b # drop (Suc n) padded) ! (i - n)"
        using False lt by (simp add: W nth_append)
      also have "\<dots> = drop (Suc n) padded ! (i - Suc n)" using gt by (simp add: nth_Cons')
      also have "\<dots> = c ! i" using gt il pc by simp
      finally show ?thesis using ne il by (simp add: n_def[symmetric])
    qed
  qed
qed

lemma WriteAt1_take:
  assumes "0 \<le> off" "m \<le> nat off" "m \<le> length c"
  shows "take m (WriteAt c off [b]) = take m c"
proof (rule nth_equalityI)
  show "length (take m (WriteAt c off [b])) = length (take m c)"
    using assms by (simp add: WriteAt1_length)
next
  fix i assume "i < length (take m (WriteAt c off [b]))"
  then have i: "i < m" by simp
  then have "WriteAt c off [b] ! i = c ! i"
    using assms by (subst WriteAt1_nth) (auto simp: max_def)
  then show "take m (WriteAt c off [b]) ! i = take m c ! i" using i by simp
qed

lemma finishedSegment_nonzero: "finishedSegment \<noteq> 0"
  by (simp add: finishedSegment_def)

lemma mark_content:
  assumes c: "files fs pf = Some c" and h: "take (length h) c = h" "length h \<le> 256"
    "length h \<le> length c"
    and M: "\<forall>j. (256 + j < length c \<and> c ! (256 + j) = finishedSegment) \<longleftrightarrow> int j \<in> M"
    and k: "0 \<le> k" "k < 2 ^ 62"
  shows "\<exists>c'. files (markSegmentDone fs pf k) pf = Some c' \<and> take (length h) c' = h \<and>
           length h \<le> length c' \<and>
           (\<forall>j. (256 + j < length c' \<and> c' ! (256 + j) = finishedSegment) \<longleftrightarrow> int j \<in> insert k M)"
proof -
  define off where "off = baseOffset + k"
  have w: "wrap64 (baseOffset + k) = off"
    unfolding off_def using k by (intro wrap64_id) (auto simp: baseOffset_def)
  have off: "0 \<le> off" "nat off = 256 + nat k" using k by (simp_all add: off_def baseOffset_def)
  define c' where "c' = WriteAt c off [finishedSegment]"
  have f: "files (markSegmentDone fs pf k) pf = Some c'"
    using c w by (simp add: markSegmentDone_def write_file_at_def c'_def)
  have len: "length c' = max (length c) (nat off + 1)"
    unfolding c'_def using off(1) by (rule WriteAt1_length)
  have t: "take (length h) c' = h"
    unfolding c'_def using h off by (subst WriteAt1_take) auto
  have "(256 + j < length c' \<and> c' ! (256 + j) = finishedSegment) \<longleftrightarrow> int j \<in> insert k M" for j
  proof (cases "j = nat k")
    case True
    then have "256 + j < length c'" using len off by simp
    moreover have "c' ! (256 + j) = finishedSegment"
      unfolding c'_def using off True by (subst WriteAt1_nth) (auto simp: max_def)
    ultimately show ?thesis using True k by simp
  next
    case False
    then have nk: "int j \<noteq> k" using k by auto
    show ?thesis
    proof (cases "256 + j < length c'")
      case True
      then have "c' ! (256 + j) = (if 256 + j < length c then c ! (256 + j) else 0)"
        unfolding c'_def using off False len by (subst WriteAt1_nth) (auto simp: c'_def)
      then show ?thesis using True M nk finishedSegment_nonzero by (auto split: if_splits)
    next
      case False
      then have "\<not> 256 + j < length c" using len by simp
      then show ?thesis using False M nk by auto
    qed
  qed
  then show ?thesis using f t len h by auto
qed

lemma marks_content:
  assumes "files fs pf = Some c" "take (length h) c = h" "length h \<le> 256" "length h \<le> length c"
    and "\<forall>j. (256 + j < length c \<and> c ! (256 + j) = finishedSegment) \<longleftrightarrow> int j \<in> M"
    and "\<forall>k \<in> set marks. 0 \<le> k \<and> k < 2 ^ 62"
  shows "\<exists>c'. files (foldl (\<lambda>fs k. markSegmentDone fs pf k) fs marks) pf = Some c' \<and>
           take (length h) c' = h \<and> length h \<le> length c' \<and>
           (\<forall>j. (256 + j < length c' \<and> c' ! (256 + j) = finishedSegment) \<longleftrightarrow> int j \<in> M \<union> set marks)"
  using assms
proof (induction marks arbitrary: fs c M)
  case Nil
  then show ?case by simp
next
  case (Cons k marks)
  have k: "0 \<le> k" "k < 2 ^ 62" using Cons.prems(6) by auto
  obtain c1 where c1: "files (markSegmentDone fs pf k) pf = Some c1" "take (length h) c1 = h"
    "length h \<le> length c1"
    "\<forall>j. (256 + j < length c1 \<and> c1 ! (256 + j) = finishedSegment) \<longleftrightarrow> int j \<in> insert k M"
    using mark_content[OF Cons.prems(1,2,3,4,5) k] by blast
  have rest: "\<forall>k \<in> set marks. 0 \<le> k \<and> k < 2 ^ 62" using Cons.prems(6) by simp
  show ?case
    using Cons.IH[OF c1(1,2) Cons.prems(3) c1(3,4) rest] by simp
qed

lemma begin_content:
  assumes "beginProgressFile g fs pf L S = Ok fs1"
  shows "files fs1 pf = Some (magic @ Encode g (L, S))"
  using assms
  by (auto simp: beginProgressFile_def os_Create_def split: option.splits if_splits)

lemma read_marked:
  assumes c: "files fs pf = Some c" and h: "take (length (magic @ e)) c = magic @ e"
    "length (magic @ e) \<le> 256"
    and dec: "\<forall>rest. Decode g (e @ rest) = Some (L, S)"
    and M: "\<forall>j. (256 + j < length c \<and> c ! (256 + j) = finishedSegment) \<longleftrightarrow> int j \<in> M"
    and cnt: "findSegmentCount L S = Ok n" "0 \<le> n" "n \<le> 50000"
  shows "readProgressInfo g fs pf =
           Ok \<lparr>Length = L, SegmentSize = S, segments = map (\<lambda>i. int i \<in> M) [0 ..< nat n]\<rparr>"
proof -
  have ce: "c = (magic @ e) @ drop (length (magic @ e)) c"
    using h(1) by (metis append_take_drop_id)
  have t4: "take 4 c = magic"
  proof -
    have "take 4 c = take 4 ((magic @ e) @ drop (length (magic @ e)) c)" using ce by simp
    also have "\<dots> = magic" by (simp add: magic_def)
    finally show ?thesis .
  qed
  have d4: "drop 4 c = e @ drop (length (magic @ e)) c"
  proof -
    have "drop 4 c = drop 4 ((magic @ e) @ drop (length (magic @ e)) c)" using ce by simp
    also have "\<dots> = e @ drop (length (magic @ e)) c" by (simp add: magic_def)
    finally show ?thesis .
  qed
  have dd: "Decode g (drop 4 c) = Some (L, S)" using dec d4 by simp
  define segs where "segs = read_flags (drop 256 c) 0 n (replicate (nat n) False)"
  have len: "length segs = nat n" by (simp add: segs_def read_flags_length)
  have nth: "segs ! k = (int k \<in> M)" if "k < nat n" for k
  proof -
    have "segs ! k = (if nat 0 \<le> k \<and> k < nat 0 + length (drop 256 c)
                      then drop 256 c ! (k - nat 0) = finishedSegment
                      else replicate (nat n) False ! k)"
      unfolding segs_def using that cnt by (intro read_flags_nth) auto
    also have "\<dots> = (256 + k < length c \<and> c ! (256 + k) = finishedSegment)"
      using that by (auto simp: add.commute)
    finally show ?thesis using M by simp
  qed
  have eq: "segs = map (\<lambda>i. int i \<in> M) [0 ..< nat n]"
    by (rule nth_equalityI) (simp_all add: len nth)
  show ?thesis
    using c t4 dd cnt eq
    by (simp add: readProgressInfo_def maxSegments_def baseOffset_def segs_def)
qed

section \<open>C2: round trip of the resume state\<close>

text \<open>
  C2, as amended. Let the gob codec write at most 252 bytes for the header \<open>(L, S)\<close> and
  read it back from any file that starts with them. For \<open>0 \<le> L\<close>, \<open>0 < S\<close>,
  \<open>L + S - 1\<close> within \<open>int64\<close> and at most 50000 segments: after
  \<open>beginProgressFile\<close> has created the progress file and any list of segment indices
  below the segment count has been marked done (byte \<open>0x59\<close> at offset \<open>256 + index\<close>),
  \<open>readProgressInfo\<close> returns the same \<open>L\<close>, the same \<open>S\<close> and a sequence of
  \<open>\<lceil>L / S\<rceil>\<close> flags that is true exactly at the marked indices.
\<close>

theorem resume_roundtrip:
  assumes enc: "length (Encode g (L, S)) \<le> 252"
    and dec: "\<forall>rest. Decode g (Encode g (L, S) @ rest) = Some (L, S)"
    and L: "0 \<le> L" and S: "0 < S" and ov: "L + S \<le> 2 ^ 63"
    and cap: "\<lceil>real_of_int L / real_of_int S\<rceil> \<le> 50000"
    and b: "beginProgressFile g fs pf L S = Ok fs1"
    and marks: "\<forall>k \<in> set marks. 0 \<le> k \<and> k < \<lceil>real_of_int L / real_of_int S\<rceil>"
  shows "readProgressInfo g (foldl (\<lambda>fs k. markSegmentDone fs pf k) fs1 marks) pf =
           Ok \<lparr>Length = L, SegmentSize = S,
               segments = map (\<lambda>i. int i \<in> set marks)
                            [0 ..< nat \<lceil>real_of_int L / real_of_int S\<rceil>]\<rparr>"
proof -
  define h where "h = magic @ Encode g (L, S)"
  define n where "n = \<lceil>real_of_int L / real_of_int S\<rceil>"
  have c0: "files fs1 pf = Some h" unfolding h_def using b by (rule begin_content)
  have hl: "length h \<le> 256" using enc by (simp add: h_def magic_def)
  have n0: "0 \<le> n" unfolding n_def using L S
    by (simp add: ceiling_divide_eq_div neg_div pos_imp_zdiv_nonneg_iff)
  have cnt: "findSegmentCount L S = Ok n" unfolding n_def using count_ok[OF L S ov] .
  have mk: "\<forall>k \<in> set marks. 0 \<le> k \<and> k < 2 ^ 62"
  proof
    fix k assume "k \<in> set marks"
    then have "0 \<le> k" "k < n" using marks by (auto simp: n_def)
    moreover have "n \<le> 50000" using cap by (simp add: n_def)
    ultimately show "0 \<le> k \<and> k < 2 ^ 62" by simp
  qed
  have M0: "\<forall>j. (256 + j < length h \<and> h ! (256 + j) = finishedSegment) \<longleftrightarrow> int j \<in> {}"
    using hl by simp
  obtain c' where c': "files (foldl (\<lambda>fs k. markSegmentDone fs pf k) fs1 marks) pf = Some c'"
      "take (length h) c' = h"
      "\<forall>j. (256 + j < length c' \<and> c' ! (256 + j) = finishedSegment) \<longleftrightarrow> int j \<in> {} \<union> set marks"
    using marks_content[OF c0 _ hl _ M0 mk] by auto
  have "readProgressInfo g (foldl (\<lambda>fs k. markSegmentDone fs pf k) fs1 marks) pf =
           Ok \<lparr>Length = L, SegmentSize = S, segments = map (\<lambda>i. int i \<in> set marks) [0 ..< nat n]\<rparr>"
    using read_marked[OF c'(1) c'(2)[unfolded h_def] hl[unfolded h_def] dec _ cnt n0 cap[folded n_def]]
      c'(3) by simp
  then show ?thesis by (simp add: n_def)
qed

text \<open>Segments 2 and 0 of the three segments of a 2,500,000-byte download.\<close>

theorem resume_roundtrip_witness:
  "beginProgressFile sample_gob empty_fs ''video.mp4.multidownload'' 2500000 1000000 =
     Ok (empty_fs\<lparr>files := (files empty_fs)(''video.mp4.multidownload'' \<mapsto>
           magic @ Encode sample_gob (2500000, 1000000))\<rparr>) \<and>
   readProgressInfo sample_gob
     (foldl (\<lambda>fs k. markSegmentDone fs ''video.mp4.multidownload'' k)
        (empty_fs\<lparr>files := (files empty_fs)(''video.mp4.multidownload'' \<mapsto>
           magic @ Encode sample_gob (2500000, 1000000))\<rparr>) [2, 0])
     ''video.mp4.multidownload'' =
     Ok \<lparr>Length = 2500000, SegmentSize = 1000000, segments = [True, False, True]\<rparr>"
proof -
  have c: "\<lceil>real_of_int 2500000 / real_of_int 1000000\<rceil> = 3" by simp
  have h1: "length (Encode sample_gob (2500000, 1000000)) \<le> 252"
    by (simp add: sample_gob_def be8_def)
  have h2: "\<forall>rest. Decode sample_gob (Encode sample_gob (2500000, 1000000) @ rest) = Some (2500000, 1000000)"
    by (simp add: sample_gob_def be8_def upt_rec of_be8_def wrap64_def)
  have h3: "(0::int) \<le> 2500000" "(0::int) < 1000000" "(2500000::int) + 1000000 \<le> 2 ^ 63" by simp_all
  have h4: "\<lceil>real_of_int 2500000 / real_of_int 1000000\<rceil> \<le> 50000" by simp
  have h5: "beginProgressFile sample_gob empty_fs ''video.mp4.multidownload'' 2500000 1000000 =
     Ok (empty_fs\<lparr>files := (files empty_fs)(''video.mp4.multidownload'' \<mapsto>
           magic @ Encode sample_gob (2500000, 1000000))\<rparr>)"
    by (simp add: beginProgressFile_def os_Create_def empty_fs_def)
  have h6: "\<forall>k \<in> set [2, 0::int]. 0 \<le> k \<and> k < \<lceil>real_of_int 2500000 / real_of_int 1000000\<rceil>"
    by simp
  have m: "map (\<lambda>i. int i \<in> set [2, 0]) [0 ..< nat 3] = [True, False, True]"
    by (simp add: upt_rec)
  show ?thesis
    using resume_roundtrip[OF h1 h2 h3 h4 h5 h6] h5 unfolding c m by simp
qed

text \<open>
  C2 as stated fails beyond the cap: the progress file of a 50,001,000,000-byte download
  (50001 segments of the default size) is created, and reading it back is the error
  \<open>too many segments\<close>.
\<close>

theorem resume_over_cap_counterexample:
  "beginProgressFile sample_gob empty_fs ''video.mp4.multidownload'' 50001000000 1000000 =
     Ok (empty_fs\<lparr>files := (files empty_fs)(''video.mp4.multidownload'' \<mapsto>
           magic @ Encode sample_gob (50001000000, 1000000))\<rparr>) \<and>
   readProgressInfo sample_gob
     (empty_fs\<lparr>files := (files empty_fs)(''video.mp4.multidownload'' \<mapsto>
           magic @ Encode sample_gob (50001000000, 1000000))\<rparr>)
     ''video.mp4.multidownload'' = Fail ErrTooManySegments"
  by (simp add: beginProgressFile_def os_Create_def empty_fs_def readProgressInfo_def
      sample_gob_def be8_def upt_rec of_be8_def wrap64_def magic_def findSegmentCount_def
      quo64_def maxSegments_def)

section \<open>One attempt of the worker\<close>

lemma attempt_failure: "attempt_failed r \<Longrightarrow> attempt th w r = on_failure w"
  by (cases r) auto

lemma attempt_success:
  "\<not> attempt_failed r \<Longrightarrow> \<exists>c body. r = Response c body \<and> attempt th w r = on_success th w body"
  by (cases r) auto

lemma receive_Go_unfinished: "receive w ins = Go ev w' ins' \<Longrightarrow> \<not> finished w'"
  by (auto simp: receive_def split: if_splits list.splits)

lemma receive_Go_errorCount: "receive w ins = Go ev w' ins' \<Longrightarrow> errorCount w' = errorCount w"
  by (auto simp: receive_def split: if_splits list.splits)

lemma receive_unfinished: "\<not> finished w \<Longrightarrow> receive w ins = Go [] w ins"
  by (simp add: receive_def)

lemma on_failure_below:
  assumes "0 \<le> errorCount w" "errorCount w < 3"
  shows "on_failure w = ([range_request (down w)], w\<lparr>errorCount := errorCount w + 1\<rparr>, False)"
proof -
  have "wrap64 (errorCount w + 1) = errorCount w + 1" using assms by (intro wrap64_id) auto
  then show ?thesis using assms by (simp add: on_failure_def Let_def)
qed

lemma on_failure_last:
  assumes "errorCount w = 3"
  shows "on_failure w = ([range_request (down w), Exit1], w\<lparr>errorCount := 4\<rparr>, True)"
proof -
  have "wrap64 (errorCount w + 1) = 4" using assms by (simp add: wrap64_def)
  then show ?thesis by (simp add: on_failure_def Let_def)
qed

lemma on_success_resets:
  "errorCount (fst (snd (on_success th w body))) = 0 \<and> \<not> snd (snd (on_success th w body))"
  by (simp add: on_success_def Let_def split: prod.splits)

lemma on_failure_unfinished: "finished (fst (snd (on_failure w))) = finished w"
  by (simp add: on_failure_def Let_def)

lemma on_success_cases:
  assumes "read_body th (down w) 0 (total w) body = (evs, rd, tot)"
  shows "on_success th w body =
     (if size_d (down w) \<le> rd
      then (range_request (down w) # evs @ [MarkDone (wrap64 (baseOffset + segmentNum (down w)))],
            w\<lparr>errorCount := 0, total := tot, finished := True\<rparr>, False)
      else (range_request (down w) # evs,
            w\<lparr>errorCount := 0, total := tot,
              down := (down w)\<lparr>position := wrap64 (position (down w) + rd),
                                size_d := wrap64 (size_d (down w) - rd)\<rparr>\<rparr>, False))"
  using assms by (simp add: on_success_def Let_def del: read_body.simps)

section \<open>C5: the retry budget\<close>

text \<open>
  C5. A worker that is about to fetch (it has just received an item, or is in flight)
  with its failure counter at zero, and whose next four attempts all fail, sends exactly
  four requests for the item and then exits the process; nothing is written and the
  segment is not marked done. An attempt that does not fail sets the counter to zero and
  does not exit; and whenever an attempt leaves the worker ready for the next item the
  counter is zero, so every item starts with the counter at zero.
\<close>

theorem retry_budget:
  assumes go: "receive w ins = Go ev w' ins'"
    and e0: "errorCount w = 0"
    and f: "attempt_failed r1" "attempt_failed r2" "attempt_failed r3" "attempt_failed r4"
  shows "download_segments th w ins (r1 # r2 # r3 # r4 # later) =
           (ev @ [range_request (down w'), range_request (down w'), range_request (down w'),
                  range_request (down w'), Exit1],
            Fatal, w'\<lparr>errorCount := 4\<rparr>) \<and>
         (\<forall>v r. \<not> attempt_failed r \<longrightarrow>
            errorCount (fst (snd (attempt th v r))) = 0 \<and> \<not> snd (snd (attempt th v r))) \<and>
         (\<forall>v r. \<not> finished v \<and> finished (fst (snd (attempt th v r))) \<longrightarrow>
            errorCount (fst (snd (attempt th v r))) = 0)"
proof (intro conjI allI impI)
  have u: "\<not> finished w'" using go by (rule receive_Go_unfinished)
  have e: "errorCount w' = 0" using go e0 by (simp add: receive_Go_errorCount)
  define w1 where "w1 = w'\<lparr>errorCount := 1\<rparr>"
  define w2 where "w2 = w'\<lparr>errorCount := 2\<rparr>"
  define w3 where "w3 = w'\<lparr>errorCount := 3\<rparr>"
  have a1: "attempt th w' r1 = ([range_request (down w')], w1, False)"
    using f(1) e by (simp add: attempt_failure on_failure_below w1_def)
  have a2: "attempt th w1 r2 = ([range_request (down w')], w2, False)"
    using f(2) by (simp add: attempt_failure on_failure_below w1_def w2_def)
  have a3: "attempt th w2 r3 = ([range_request (down w')], w3, False)"
    using f(3) by (simp add: attempt_failure on_failure_below w2_def w3_def)
  have a4: "attempt th w3 r4 = ([range_request (down w'), Exit1], w'\<lparr>errorCount := 4\<rparr>, True)"
    using f(4) by (simp add: attempt_failure on_failure_last w3_def)
  have r1: "receive w1 ins' = Go [] w1 ins'" using u by (simp add: receive_unfinished w1_def)
  have r2: "receive w2 ins' = Go [] w2 ins'" using u by (simp add: receive_unfinished w2_def)
  have r3: "receive w3 ins' = Go [] w3 ins'" using u by (simp add: receive_unfinished w3_def)
  have s4: "download_segments th w3 ins' (r4 # later) =
      ([range_request (down w'), Exit1], Fatal, w'\<lparr>errorCount := 4\<rparr>)"
    by (simp add: r3 a4)
  have s3: "download_segments th w2 ins' (r3 # r4 # later) =
      ([range_request (down w'), range_request (down w'), Exit1], Fatal, w'\<lparr>errorCount := 4\<rparr>)"
    by (simp add: download_segments.simps(2)[of th w2] r2 a3 s4 del: download_segments.simps(2))
  have s2: "download_segments th w1 ins' (r2 # r3 # r4 # later) =
      ([range_request (down w'), range_request (down w'), range_request (down w'), Exit1],
       Fatal, w'\<lparr>errorCount := 4\<rparr>)"
    by (simp add: download_segments.simps(2)[of th w1] r1 a2 s3 del: download_segments.simps(2))
  show "download_segments th w ins (r1 # r2 # r3 # r4 # later) =
           (ev @ [range_request (down w'), range_request (down w'), range_request (down w'),
                  range_request (down w'), Exit1],
            Fatal, w'\<lparr>errorCount := 4\<rparr>)"
    by (simp add: download_segments.simps(2)[of th w] go a1 s2 del: download_segments.simps(2))
next
  fix v r assume "\<not> attempt_failed r"
  then obtain c body where "attempt th v r = on_success th v body"
    using attempt_success by blast
  then show "errorCount (fst (snd (attempt th v r))) = 0" "\<not> snd (snd (attempt th v r))"
    using on_success_resets by simp_all
next
  fix v r assume a: "\<not> finished v \<and> finished (fst (snd (attempt th v r)))"
  show "errorCount (fst (snd (attempt th v r))) = 0"
  proof (cases "attempt_failed r")
    case True
    then show ?thesis using a by (simp add: attempt_failure on_failure_unfinished)
  next
    case False
    then obtain c body where "attempt th v r = on_success th v body"
      using attempt_success by blast
    then show ?thesis using on_success_resets by simp
  qed
qed

text \<open>Four failures on the first segment of a download.\<close>

theorem retry_budget_witness:
  "receive init_worker [\<lparr>position = 0, size_d = 1000000, segmentNum = 0\<rparr>] =
     Go [Recv \<lparr>position = 0, size_d = 1000000, segmentNum = 0\<rparr>]
        (init_worker\<lparr>down := \<lparr>position = 0, size_d = 1000000, segmentNum = 0\<rparr>,
                     finished := False\<rparr>) [] \<and>
   errorCount init_worker = 0 \<and>
   attempt_failed (Response 404 []) \<and> attempt_failed TransportError \<and>
   attempt_failed (Response 500 []) \<and>
   download_segments 0 init_worker [\<lparr>position = 0, size_d = 1000000, segmentNum = 0\<rparr>]
     [Response 404 [], TransportError, Response 500 [], TransportError] =
     ([Recv \<lparr>position = 0, size_d = 1000000, segmentNum = 0\<rparr>,
       Request 0 999999, Request 0 999999, Request 0 999999, Request 0 999999, Exit1],
      Fatal,
      \<lparr>finished = False, down = \<lparr>position = 0, size_d = 1000000, segmentNum = 0\<rparr>,
       total = 0, errorCount = 4\<rparr>)"
proof -
  have g: "receive init_worker [\<lparr>position = 0, size_d = 1000000, segmentNum = 0\<rparr>] =
     Go [Recv \<lparr>position = 0, size_d = 1000000, segmentNum = 0\<rparr>]
        (init_worker\<lparr>down := \<lparr>position = 0, size_d = 1000000, segmentNum = 0\<rparr>,
                     finished := False\<rparr>) []"
    by (simp add: receive_def init_worker_def)
  have e: "errorCount init_worker = 0" by (simp add: init_worker_def)
  have f: "attempt_failed (Response 404 [])" "attempt_failed TransportError"
    "attempt_failed (Response 500 [])" by simp_all
  have rr: "range_request \<lparr>position = 0, size_d = 1000000, segmentNum = 0\<rparr> = Request 0 999999"
    by (simp add: range_request_def wrap64_def)
  show ?thesis
    using retry_budget[OF g e f(1) f(2) f(3) f(2), of 0 "[]"] g e f
    by (simp add: rr init_worker_def del: download_segments.simps)
qed

section \<open>C6: what counts as a failed attempt\<close>

lemma attempt_failed_iff:
  "attempt_failed r \<longleftrightarrow>
     r = TransportError \<or> (\<exists>c body. r = Response c body \<and> c \<noteq> 206 \<and> c \<noteq> 200)"
  by (cases r) auto

lemma attempt_accepts:
  assumes "c = 206 \<or> c = 200"
  shows "attempt th w (Response c body) = on_success th w body"
  using assms by auto

text \<open>
  C6, as amended. When the response is a transport error or has a status other than 206
  and 200, the attempt increments the failure counter by one and changes nothing else of
  the worker; besides the request it sends nothing, writes nothing and marks nothing
  (the only other event is the exit of the process, which happens exactly when the
  counter exceeds 3). A response with status 200 is accepted exactly like one with status
  206, whatever its body: the attempt is the same, the failure counter is reset to zero,
  the process does not exit, and the body is read (the events after the request are the
  writes and updates of \<open>read_body\<close> on that body, followed by the mark when the bytes
  read reach the size of the item).
\<close>

theorem failed_attempt_counted:
  assumes e: "- (2 ^ 63) \<le> errorCount w" "errorCount w < 2 ^ 63 - 1"
    and r: "r = TransportError \<or> (\<exists>c body. r = Response c body \<and> c \<noteq> 206 \<and> c \<noteq> 200)"
    and s: "c = 206 \<or> c = 200"
  shows "fst (snd (attempt th w r)) = w\<lparr>errorCount := errorCount w + 1\<rparr> \<and>
         (\<forall>e \<in> set (fst (attempt th w r)). e = range_request (down w) \<or> e = Exit1) \<and>
         (snd (snd (attempt th w r)) \<longleftrightarrow> errorCount w + 1 > 3) \<and>
         attempt th w (Response c body) = attempt th w (Response 206 body) \<and>
         errorCount (fst (snd (attempt th w (Response c body)))) = 0 \<and>
         \<not> snd (snd (attempt th w (Response c body))) \<and>
         fst (attempt th w (Response c body)) =
           range_request (down w) # fst (read_body th (down w) 0 (total w) body) @
           (if size_d (down w) \<le> fst (snd (read_body th (down w) 0 (total w) body))
            then [MarkDone (wrap64 (baseOffset + segmentNum (down w)))] else []) \<and>
         total (fst (snd (attempt th w (Response c body)))) =
           snd (snd (read_body th (down w) 0 (total w) body))"
proof -
  have f: "attempt th w r = on_failure w"
    using r by (intro attempt_failure) (simp add: attempt_failed_iff)
  have wr: "wrap64 (errorCount w + 1) = errorCount w + 1" using e by (intro wrap64_id) auto
  have fl: "fst (snd (attempt th w r)) = w\<lparr>errorCount := errorCount w + 1\<rparr> \<and>
         (\<forall>e \<in> set (fst (attempt th w r)). e = range_request (down w) \<or> e = Exit1) \<and>
         (snd (snd (attempt th w r)) \<longleftrightarrow> errorCount w + 1 > 3)"
    unfolding f by (simp add: on_failure_def Let_def wr)
  have a: "attempt th w (Response c body) = on_success th w body" using s by (rule attempt_accepts)
  have a6: "attempt th w (Response 206 body) = on_success th w body" by simp
  obtain evs rd tot where rb: "read_body th (down w) 0 (total w) body = (evs, rd, tot)"
    by (cases "read_body th (down w) 0 (total w) body") auto
  have ok: "errorCount (fst (snd (on_success th w body))) = 0 \<and>
         \<not> snd (snd (on_success th w body)) \<and>
         fst (on_success th w body) =
           range_request (down w) # evs @
           (if size_d (down w) \<le> rd
            then [MarkDone (wrap64 (baseOffset + segmentNum (down w)))] else []) \<and>
         total (fst (snd (on_success th w body))) = tot"
    unfolding on_success_cases[OF rb] by simp
  show ?thesis using fl ok unfolding a a6 rb by simp
qed

text \<open>A 503 response after two failures, and a 200 response in the same state.\<close>

theorem failed_attempt_counted_witness:
  "attempt 0 \<lparr>finished = False, down = \<lparr>position = 0, size_d = 4, segmentNum = 0\<rparr>,
              total = 0, errorCount = 2\<rparr> (Response 503 [([1, 2, 3], False)]) =
     ([Request 0 3],
      \<lparr>finished = False, down = \<lparr>position = 0, size_d = 4, segmentNum = 0\<rparr>,
       total = 0, errorCount = 3\<rparr>, False) \<and>
   attempt 0 \<lparr>finished = False, down = \<lparr>position = 0, size_d = 4, segmentNum = 0\<rparr>,
              total = 0, errorCount = 2\<rparr> (Response 200 [([1, 2], False), ([3, 4, 5], False)]) =
     ([Request 0 3, WriteOut 0 [1, 2], Update 0 2, WriteOut 2 [3, 4, 5], Update 0 5, MarkDone 256],
      \<lparr>finished = True, down = \<lparr>position = 0, size_d = 4, segmentNum = 0\<rparr>,
       total = 5, errorCount = 0\<rparr>, False) \<and>
   attempt 0 \<lparr>finished = False, down = \<lparr>position = 0, size_d = 4, segmentNum = 0\<rparr>,
              total = 0, errorCount = 2\<rparr> (Response 200 [([1, 2], False), ([3, 4, 5], False)]) =
   attempt 0 \<lparr>finished = False, down = \<lparr>position = 0, size_d = 4, segmentNum = 0\<rparr>,
              total = 0, errorCount = 2\<rparr> (Response 206 [([1, 2], False), ([3, 4, 5], False)])"
proof -
  define w where "w = \<lparr>finished = False, down = \<lparr>position = 0, size_d = 4, segmentNum = 0\<rparr>,
              total = 0, errorCount = 2\<rparr>"
  have e: "- (2 ^ 63) \<le> errorCount w" "errorCount w < 2 ^ 63 - 1" by (simp_all add: w_def)
  have h: "Response 503 [([1, 2, 3], False)] = TransportError \<or>
      (\<exists>c body. Response 503 [([1, 2, 3::byte], False)] = Response c body \<and> c \<noteq> 206 \<and> c \<noteq> 200)"
    by simp
  have s: "(200::int) = 206 \<or> (200::int) = 200" by simp
  note t = failed_attempt_counted[OF e h s, of 0 "[([1, 2], False), ([3, 4, 5], False)]"]
  have 1: "fst (snd (attempt 0 w (Response 503 [([1, 2, 3], False)]))) =
     w\<lparr>errorCount := errorCount w + 1\<rparr>" using t by blast
  have 2: "attempt 0 w (Response 200 [([1, 2], False), ([3, 4, 5], False)]) =
           attempt 0 w (Response 206 [([1, 2], False), ([3, 4, 5], False)])" using t by blast
  show ?thesis using 1 2 unfolding w_def
    by (simp add: on_failure_def on_success_def range_request_def wrap64_def baseOffset_def)
qed

text \<open>
  C6 as stated fails at status 200: \<open>main.go\<close> accepts it, resets the counter and reads
  the body.
\<close>

theorem status_200_accepted_counterexample:
  "attempt 0 \<lparr>finished = False, down = \<lparr>position = 0, size_d = 4, segmentNum = 0\<rparr>,
              total = 0, errorCount = 2\<rparr> (Response 200 [([1, 2, 3, 4], False)]) =
     ([Request 0 3, WriteOut 0 [1, 2, 3, 4], Update 0 4, MarkDone 256],
      \<lparr>finished = True, down = \<lparr>position = 0, size_d = 4, segmentNum = 0\<rparr>,
       total = 4, errorCount = 0\<rparr>, False)"
  by (simp add: on_success_def range_request_def wrap64_def baseOffset_def)

text \<open>The other copy of the program rejects status 200.\<close>

lemma attempt_failed_variant:
  "attempt_failed r \<Longrightarrow> attempt_failed_206 r" "attempt_failed_206 (Response 200 body)"
  by (cases r) auto

section \<open>Reading a response body\<close>

lemma body_bytes_nonneg: "0 \<le> body_bytes body"
  by (induction body) (auto simp: body_bytes_def)

lemma body_bytes_Cons: "body_bytes ((bs, e) # body) = int (length bs) + body_bytes body"
  by (simp add: body_bytes_def)

lemma body_ok_Cons: "body_ok ((bs, e) # body) \<longleftrightarrow> length bs \<le> 8192 \<and> body_ok body"
  by (simp add: body_ok_def)

lemma streams_on_Cons: "streams_on ((bs, e) # body) \<longleftrightarrow> \<not> (bs = [] \<and> e) \<and> streams_on body"
  by (simp add: streams_on_def)

text \<open>One step of the loop, without wrap-around.\<close>

lemma read_body_step:
  assumes "rd < size_d d" "\<not> (bs = [] \<and> e)" "0 \<le> rd" "length bs \<le> 8192"
    "0 \<le> position d" "position d + size_d d + 8192 \<le> 2 ^ 63"
  shows "read_body th d rd tot ((bs, e) # reads) =
           (case read_body th d (rd + int (length bs)) (wrap64 (tot + int (length bs))) reads of
              (evs, r, t) \<Rightarrow>
                (WriteOut (position d + rd) bs # Update th (wrap64 (tot + int (length bs))) # evs, r, t))"
proof -
  have w1: "wrap64 (rd + int (length bs)) = rd + int (length bs)"
    using assms by (intro wrap64_id) auto
  have w2: "wrap64 (position d + rd) = position d + rd"
    using assms by (intro wrap64_id) auto
  have w3: "wrap64 rd = rd" using assms by (intro wrap64_id) auto
  show ?thesis using assms(1,2) by (cases "bs = []"; cases e; simp add: w1 w2 w3 Let_def)
qed

lemma read_body_stop:
  "\<not> rd < size_d d \<or> (bs = [] \<and> e) \<Longrightarrow> read_body th d rd tot ((bs, e) # reads) = ([], rd, tot)"
  by auto

lemma read_body_mono:
  assumes "0 \<le> rd" "body_ok body" "0 \<le> position d" "position d + size_d d + 8192 \<le> 2 ^ 63"
  shows "rd \<le> fst (snd (read_body th d rd tot body))"
  using assms(1,2)
proof (induction body arbitrary: rd tot)
  case Nil
  then show ?case by simp
next
  case (Cons x body)
  obtain bs e where x: "x = (bs, e)" by (cases x)
  show ?case
  proof (cases "rd < size_d d \<and> \<not> (bs = [] \<and> e)")
    case True
    have ok: "length bs \<le> 8192" "body_ok body" using Cons.prems by (simp_all add: x body_ok_Cons)
    have "rd + int (length bs) \<le> fst (snd (read_body th d (rd + int (length bs)) (wrap64 (tot + int (length bs))) body))"
      using Cons.IH[of "rd + int (length bs)"] Cons.prems ok by simp
    moreover have "read_body th d rd tot ((bs, e) # body) =
           (case read_body th d (rd + int (length bs)) (wrap64 (tot + int (length bs))) body of
              (evs, r, t) \<Rightarrow>
                (WriteOut (position d + rd) bs # Update th (wrap64 (tot + int (length bs))) # evs, r, t))"
      using True Cons.prems ok assms(3,4) by (intro read_body_step) auto
    ultimately show ?thesis unfolding x by (auto split: prod.splits simp del: read_body.simps)
  next
    case False
    then show ?thesis unfolding x by (subst read_body_stop) auto
  qed
qed

lemma read_body_shift:
  assumes "0 \<le> k" "0 \<le> rd" "body_ok body" "0 \<le> position d"
    "position d + size_d d + 8192 \<le> 2 ^ 63"
  shows "read_body th (d\<lparr>position := position d + k, size_d := size_d d - k\<rparr>) rd tot body =
           (case read_body th d (rd + k) tot body of (evs, r, t) \<Rightarrow> (evs, r - k, t))"
  using assms(2,3)
proof (induction body arbitrary: rd tot)
  case Nil
  then show ?case by simp
next
  case (Cons x body)
  obtain bs e where x: "x = (bs, e)" by (cases x)
  define d' where "d' = d\<lparr>position := position d + k, size_d := size_d d - k\<rparr>"
  have d': "position d' = position d + k" "size_d d' = size_d d - k" by (simp_all add: d'_def)
  have ok: "length bs \<le> 8192" "body_ok body" using Cons.prems by (simp_all add: x body_ok_Cons)
  show ?case
  proof (cases "rd + k < size_d d \<and> \<not> (bs = [] \<and> e)")
    case True
    have l: "read_body th d' rd tot ((bs, e) # body) =
           (case read_body th d' (rd + int (length bs)) (wrap64 (tot + int (length bs))) body of
              (evs, r, t) \<Rightarrow>
                (WriteOut (position d' + rd) bs # Update th (wrap64 (tot + int (length bs))) # evs, r, t))"
      using True Cons.prems ok assms(1,4,5) d' by (intro read_body_step) auto
    have r: "read_body th d (rd + k) tot ((bs, e) # body) =
           (case read_body th d (rd + k + int (length bs)) (wrap64 (tot + int (length bs))) body of
              (evs, r, t) \<Rightarrow>
                (WriteOut (position d + (rd + k)) bs # Update th (wrap64 (tot + int (length bs))) # evs, r, t))"
      using True Cons.prems ok assms(1,4,5) by (intro read_body_step) auto
    have IH: "read_body th d' (rd + int (length bs)) (wrap64 (tot + int (length bs))) body =
       (case read_body th d (rd + int (length bs) + k) (wrap64 (tot + int (length bs))) body of
          (evs, r, t) \<Rightarrow> (evs, r - k, t))"
      unfolding d'_def using Cons.prems ok by (intro Cons.IH) auto
    have c: "rd + int (length bs) + k = rd + k + int (length bs)" by simp
    show ?thesis
      unfolding x d'_def[symmetric] l r IH c d'
      by (simp split: prod.splits add: algebra_simps)
  next
    case False
    then have "read_body th d' rd tot ((bs, e) # body) = ([], rd, tot)"
      using d' by (intro read_body_stop) auto
    moreover have "read_body th d (rd + k) tot ((bs, e) # body) = ([], rd + k, tot)"
      using False by (intro read_body_stop) auto
    ultimately show ?thesis unfolding x d'_def[symmetric] by simp
  qed
qed

lemma read_body_append:
  assumes "streams_on body1" "rd + body_bytes body1 < size_d d" "0 \<le> rd" "body_ok body1"
    "0 \<le> position d" "position d + size_d d + 8192 \<le> 2 ^ 63"
  shows "read_body th d rd tot (body1 @ body2) =
           (case read_body th d rd tot body1 of
              (e1, r1, t1) \<Rightarrow>
                (case read_body th d r1 t1 body2 of (e2, r2, t2) \<Rightarrow> (e1 @ e2, r2, t2))) \<and>
         fst (snd (read_body th d rd tot body1)) = rd + body_bytes body1"
  using assms(1,2,3,4)
proof (induction body1 arbitrary: rd tot)
  case Nil
  then show ?case by (simp add: body_bytes_def split: prod.splits)
next
  case (Cons x body1)
  obtain bs e where x: "x = (bs, e)" by (cases x)
  have ok: "length bs \<le> 8192" "body_ok body1" using Cons.prems by (simp_all add: x body_ok_Cons)
  have st: "\<not> (bs = [] \<and> e)" "streams_on body1" using Cons.prems by (simp_all add: x streams_on_Cons)
  have bb: "rd + int (length bs) + body_bytes body1 < size_d d"
    using Cons.prems by (simp add: x body_bytes_Cons)
  have lt: "rd < size_d d" using bb body_bytes_nonneg[of body1] by linarith
  have s1: "read_body th d rd tot ((bs, e) # body1 @ body2) =
           (case read_body th d (rd + int (length bs)) (wrap64 (tot + int (length bs))) (body1 @ body2) of
              (evs, r, t) \<Rightarrow>
                (WriteOut (position d + rd) bs # Update th (wrap64 (tot + int (length bs))) # evs, r, t))"
    using lt st ok Cons.prems assms(5,6) by (intro read_body_step) auto
  have s2: "read_body th d rd tot ((bs, e) # body1) =
           (case read_body th d (rd + int (length bs)) (wrap64 (tot + int (length bs))) body1 of
              (evs, r, t) \<Rightarrow>
                (WriteOut (position d + rd) bs # Update th (wrap64 (tot + int (length bs))) # evs, r, t))"
    using lt st ok Cons.prems assms(5,6) by (intro read_body_step) auto
  have IH: "read_body th d (rd + int (length bs)) (wrap64 (tot + int (length bs))) (body1 @ body2) =
           (case read_body th d (rd + int (length bs)) (wrap64 (tot + int (length bs))) body1 of
              (e1, r1, t1) \<Rightarrow>
                (case read_body th d r1 t1 body2 of (e2, r2, t2) \<Rightarrow> (e1 @ e2, r2, t2)))"
    "fst (snd (read_body th d (rd + int (length bs)) (wrap64 (tot + int (length bs))) body1)) =
       rd + int (length bs) + body_bytes body1"
    using Cons.IH[OF st(2) bb _ ok(2)] Cons.prems(3) by auto
  show ?case
    unfolding x append_Cons s1 s2 IH(1) using IH(2)
    by (auto split: prod.splits simp: body_bytes_Cons)
qed

lemma read_body_reaches:
  assumes "streams_on body" "0 \<le> rd" "body_ok body"
    "0 \<le> position d" "position d + size_d d + 8192 \<le> 2 ^ 63"
  shows "size_d d \<le> fst (snd (read_body th d rd tot body)) \<or>
         fst (snd (read_body th d rd tot body)) = rd + body_bytes body"
  using assms(1,2,3)
proof (induction body arbitrary: rd tot)
  case Nil
  then show ?case by (simp add: body_bytes_def)
next
  case (Cons x body)
  obtain bs e where x: "x = (bs, e)" by (cases x)
  have ok: "length bs \<le> 8192" "body_ok body" using Cons.prems by (simp_all add: x body_ok_Cons)
  have st: "\<not> (bs = [] \<and> e)" "streams_on body" using Cons.prems by (simp_all add: x streams_on_Cons)
  show ?case
  proof (cases "rd < size_d d")
    case True
    have s: "read_body th d rd tot ((bs, e) # body) =
           (case read_body th d (rd + int (length bs)) (wrap64 (tot + int (length bs))) body of
              (evs, r, t) \<Rightarrow>
                (WriteOut (position d + rd) bs # Update th (wrap64 (tot + int (length bs))) # evs, r, t))"
      using True st ok Cons.prems assms(4,5) by (intro read_body_step) auto
    have IH: "size_d d \<le> fst (snd (read_body th d (rd + int (length bs)) (wrap64 (tot + int (length bs))) body)) \<or>
         fst (snd (read_body th d (rd + int (length bs)) (wrap64 (tot + int (length bs))) body)) =
           rd + int (length bs) + body_bytes body"
      using Cons.IH[OF st(2) _ ok(2)] Cons.prems(2) by simp
    show ?thesis unfolding x s using IH by (auto split: prod.splits simp: body_bytes_Cons)
  next
    case False
    then have "read_body th d rd tot ((bs, e) # body) = ([], rd, tot)"
      by (intro read_body_stop) auto
    then show ?thesis unfolding x using False by simp
  qed
qed

lemma marks_ok_read_body:
  assumes "0 \<le> rd" "body_ok body" "0 \<le> position d" "position d + size_d d + 8192 \<le> 2 ^ 63"
  shows "marks_ok cur (position d + rd) (fst (read_body th d rd tot body) @ rest) =
         marks_ok cur (position d + fst (snd (read_body th d rd tot body))) rest"
  using assms(1,2)
proof (induction body arbitrary: rd tot)
  case Nil
  then show ?case by simp
next
  case (Cons x body)
  obtain bs e where x: "x = (bs, e)" by (cases x)
  have ok: "length bs \<le> 8192" "body_ok body" using Cons.prems by (simp_all add: x body_ok_Cons)
  show ?case
  proof (cases "rd < size_d d \<and> \<not> (bs = [] \<and> e)")
    case True
    have s: "read_body th d rd tot ((bs, e) # body) =
           (case read_body th d (rd + int (length bs)) (wrap64 (tot + int (length bs))) body of
              (evs, r, t) \<Rightarrow>
                (WriteOut (position d + rd) bs # Update th (wrap64 (tot + int (length bs))) # evs, r, t))"
      using True ok Cons.prems assms(3,4) by (intro read_body_step) auto
    have IH: "marks_ok cur (position d + (rd + int (length bs)))
        (fst (read_body th d (rd + int (length bs)) (wrap64 (tot + int (length bs))) body) @ rest) =
       marks_ok cur (position d +
         fst (snd (read_body th d (rd + int (length bs)) (wrap64 (tot + int (length bs))) body))) rest"
      using Cons.prems ok by (intro Cons.IH) auto
    have m: "max (position d + rd) (position d + rd + int (length bs)) = position d + (rd + int (length bs))"
      by simp
    show ?thesis unfolding x s using IH
      by (auto split: prod.splits simp: m)
  next
    case False
    then have "read_body th d rd tot ((bs, e) # body) = ([], rd, tot)"
      by (intro read_body_stop) auto
    then show ?thesis unfolding x by simp
  qed
qed

lemma read_body_no_request: "\<forall>e \<in> set (fst (read_body th d rd tot body)). \<not> is_request e"
proof (induction body arbitrary: rd tot)
  case Nil
  then show ?case by simp
next
  case (Cons x body)
  obtain bs e where x: "x = (bs, e)" by (cases x)
  show ?case unfolding x using Cons.IH
    by (auto simp: Let_def split: prod.splits) (metis fst_conv)+
qed

lemma filter_no_request:
  "filter (\<lambda>e. \<not> is_request e) (fst (read_body th d rd tot body)) = fst (read_body th d rd tot body)"
  using read_body_no_request by (simp add: filter_id_conv)

lemma range_request_plain:
  assumes "0 \<le> position d" "0 < size_d d" "position d + size_d d + 8192 \<le> 2 ^ 63"
  shows "range_request d = Request (position d) (position d + size_d d - 1)"
proof -
  have 1: "wrap64 (position d + size_d d) = position d + size_d d"
    using assms by (intro wrap64_id) auto
  have 2: "wrap64 (position d + size_d d - 1) = position d + size_d d - 1"
    using assms by (intro wrap64_id) auto
  show ?thesis by (simp add: range_request_def 1 2)
qed

section \<open>Two attempts on one item\<close>

text \<open>
  Let a worker be in flight on an item whose offsets are within range, and let a
  response with status 206 or 200 end, without an error, after fewer bytes than the item
  has left (\<open>body1\<close>). Then the attempt does not exit, the worker stays in flight with
  its failure counter at zero, its item is shrunk to the unread remainder, and the head of
  the loop takes no new item from the channel. Apart from the requests, this attempt and
  the following one (\<open>body2\<close>) together do what one attempt with the body
  \<open>body1 @ body2\<close> does, whether or not \<open>body2\<close> brings the rest of the bytes.
\<close>

lemma partial_attempts:
  assumes u: "\<not> finished w" and d: "item_ok (down w)"
    and c: "c1 = 206 \<or> c1 = 200" "c2 = 206 \<or> c2 = 200"
    and b1: "body_ok body1" "streams_on body1" "body_bytes body1 < size_d (down w)"
    and b2: "body_ok body2"
    and a1: "attempt th w (Response c1 body1) = (ev1, w1, x1)"
    and a2: "attempt th w1 (Response c2 body2) = (ev2, w2, x2)"
    and aS: "attempt th w (Response c1 (body1 @ body2)) = (evS, wS, xS)"
  shows "\<not> x1 \<and> \<not> finished w1 \<and> errorCount w1 = 0 \<and>
         down w1 = (down w)\<lparr>position := position (down w) + body_bytes body1,
                              size_d := size_d (down w) - body_bytes body1\<rparr> \<and>
         receive w1 ins = Go [] w1 ins \<and>
         hd ev2 = Request (position (down w) + body_bytes body1)
                          (position (down w) + size_d (down w) - 1) \<and>
         filter (\<lambda>e. \<not> is_request e) (ev1 @ ev2) = filter (\<lambda>e. \<not> is_request e) evS \<and>
         finished w2 = finished wS \<and> total w2 = total wS \<and> errorCount w2 = errorCount wS \<and>
         x2 = xS \<and> (\<not> finished w2 \<longrightarrow> down w2 = down wS) \<and>
         (streams_on body2 \<and> size_d (down w) \<le> body_bytes body1 + body_bytes body2 \<longrightarrow>
            finished w2 \<and> last ev2 = MarkDone (baseOffset + segmentNum (down w)))"
proof -
  define d0 where "d0 = down w"
  define p where "p = position d0"
  define s where "s = size_d d0"
  define b where "b = body_bytes body1"
  have b0: "0 \<le> b" unfolding b_def by (rule body_bytes_nonneg)
  have p0: "0 \<le> position d0" and ps: "position d0 + size_d d0 + 8192 \<le> 2 ^ 63"
    and sg: "0 \<le> segmentNum d0" "segmentNum d0 < 2 ^ 62"
    using d by (simp_all add: item_ok_def d0_def)
  have bs: "b < size_d d0" using b1(3) by (simp add: b_def d0_def)
  obtain e1 r1 t1 where rb1: "read_body th d0 0 (total w) body1 = (e1, r1, t1)"
    by (cases "read_body th d0 0 (total w) body1") auto
  have ap: "read_body th d0 0 (total w) (body1 @ body2) =
           (case read_body th d0 0 (total w) body1 of
              (e1, r1, t1) \<Rightarrow>
                (case read_body th d0 r1 t1 body2 of (e2, r2, t2) \<Rightarrow> (e1 @ e2, r2, t2)))"
    and r1b: "fst (snd (read_body th d0 0 (total w) body1)) = 0 + body_bytes body1"
    using read_body_append[OF b1(2) _ _ b1(1) p0 ps, of 0 th "total w" body2] bs
    by (simp_all add: b_def)
  have r1: "r1 = b" using r1b rb1 by (simp add: b_def)
  have wp: "wrap64 (position d0 + b) = position d0 + b"
    using p0 ps b0 bs by (intro wrap64_id) auto
  have ws: "wrap64 (size_d d0 - b) = size_d d0 - b"
    using p0 ps b0 bs by (intro wrap64_id) auto
  define d1 where "d1 = d0\<lparr>position := position d0 + b, size_d := size_d d0 - b\<rparr>"
  define w1' where "w1' = w\<lparr>errorCount := 0, total := t1, down := d1\<rparr>"
  have os1: "on_success th w body1 = (range_request d0 # e1, w1', False)"
    using on_success_cases[OF rb1[unfolded d0_def]] bs r1
    by (simp add: d0_def[symmetric] wp ws w1'_def d1_def)
  have at1: "attempt th w (Response c1 body1) = (range_request d0 # e1, w1', False)"
    using c(1) os1 by auto
  have ev1: "ev1 = range_request d0 # e1" and w1: "w1 = w1'" and x1: "\<not> x1"
    using a1 at1 by simp_all
  have f1: "\<not> finished w1" using u by (simp add: w1 w1'_def)
  have dw1: "down w1 = d1" "total w1 = t1" by (simp_all add: w1 w1'_def)
  obtain e2 r2 t2 where rb2: "read_body th d0 b t1 body2 = (e2, r2, t2)"
    by (cases "read_body th d0 b t1 body2") auto
  have sh: "read_body th d1 0 t1 body2 = (e2, r2 - b, t2)"
    unfolding d1_def using read_body_shift[OF b0 _ b2 p0 ps, of 0 th t1] rb2 by simp
  have rbS: "read_body th d0 0 (total w) (body1 @ body2) = (e1 @ e2, r2, t2)"
    using ap rb1 rb2 r1 by simp
  have d1f: "position d1 = position d0 + b" "size_d d1 = size_d d0 - b"
    "segmentNum d1 = segmentNum d0" by (simp_all add: d1_def)
  have rq: "range_request d1 = Request (position d0 + b) (position d0 + size_d d0 - 1)"
  proof -
    have "range_request d1 = Request (position d1) (position d1 + size_d d1 - 1)"
      using p0 ps b0 bs d1f by (intro range_request_plain) auto
    then show ?thesis by (simp add: d1f)
  qed
  have osS: "on_success th w (body1 @ body2) =
     (if size_d d0 \<le> r2
      then (range_request d0 # (e1 @ e2) @ [MarkDone (wrap64 (baseOffset + segmentNum d0))],
            w\<lparr>errorCount := 0, total := t2, finished := True\<rparr>, False)
      else (range_request d0 # (e1 @ e2),
            w\<lparr>errorCount := 0, total := t2,
              down := d0\<lparr>position := wrap64 (position d0 + r2),
                         size_d := wrap64 (size_d d0 - r2)\<rparr>\<rparr>, False))"
    using on_success_cases[OF rbS[unfolded d0_def]] by (simp add: d0_def[symmetric])
  have os2: "on_success th w1 body2 =
     (if size_d d1 \<le> r2 - b
      then (range_request d1 # e2 @ [MarkDone (wrap64 (baseOffset + segmentNum d1))],
            w1\<lparr>errorCount := 0, total := t2, finished := True\<rparr>, False)
      else (range_request d1 # e2,
            w1\<lparr>errorCount := 0, total := t2,
              down := d1\<lparr>position := wrap64 (position d1 + (r2 - b)),
                         size_d := wrap64 (size_d d1 - (r2 - b))\<rparr>\<rparr>, False))"
    using on_success_cases[of th w1 body2 e2 "r2 - b" t2] sh by (simp add: dw1)
  have at2: "attempt th w1 (Response c2 body2) = on_success th w1 body2" using c(2) by auto
  have atS: "attempt th w (Response c1 (body1 @ body2)) = on_success th w (body1 @ body2)"
    using c(1) by auto
  have fe1: "filter (\<lambda>e. \<not> is_request e) e1 = e1"
    using filter_no_request[of th d0 0 "total w" body1] rb1 by simp
  have fe2: "filter (\<lambda>e. \<not> is_request e) e2 = e2"
    using filter_no_request[of th d0 b t1 body2] rb2 by simp
  have rr: "is_request (range_request d0)" "is_request (range_request d1)"
    by (simp_all add: range_request_def)
  have wm: "wrap64 (baseOffset + segmentNum d0) = baseOffset + segmentNum d0"
    using sg by (intro wrap64_id) (auto simp: baseOffset_def)
  have dd: "d1\<lparr>position := wrap64 (position d1 + (r2 - b)), size_d := wrap64 (size_d d1 - (r2 - b))\<rparr> =
            d0\<lparr>position := wrap64 (position d0 + r2), size_d := wrap64 (size_d d0 - r2)\<rparr>"
    by (simp add: d1_def algebra_simps)
  have main: "hd ev2 = Request (position d0 + b) (position d0 + size_d d0 - 1) \<and>
         filter (\<lambda>e. \<not> is_request e) (ev1 @ ev2) = filter (\<lambda>e. \<not> is_request e) evS \<and>
         finished w2 = finished wS \<and> total w2 = total wS \<and> errorCount w2 = errorCount wS \<and>
         x2 = xS \<and> (\<not> finished w2 \<longrightarrow> down w2 = down wS) \<and>
         (size_d d0 \<le> r2 \<longrightarrow> finished w2 \<and> last ev2 = MarkDone (baseOffset + segmentNum d0))"
  proof (cases "size_d d0 \<le> r2")
    case True
    then have t1: "size_d d1 \<le> r2 - b" by (simp add: d1f)
    have e2: "ev2 = range_request d1 # e2 @ [MarkDone (wrap64 (baseOffset + segmentNum d1))]"
      and w2: "w2 = w1\<lparr>errorCount := 0, total := t2, finished := True\<rparr>" and x2: "\<not> x2"
      using a2 at2 os2 t1 by simp_all
    have eS: "evS = range_request d0 # (e1 @ e2) @ [MarkDone (wrap64 (baseOffset + segmentNum d0))]"
      and wS: "wS = w\<lparr>errorCount := 0, total := t2, finished := True\<rparr>" and xS: "\<not> xS"
      using aS atS osS True by simp_all
    show ?thesis
      by (simp add: e2 w2 x2 eS wS xS ev1 rr fe1 fe2 rq d1f wm w1 w1'_def)
  next
    case False
    then have t1: "\<not> size_d d1 \<le> r2 - b" by (simp add: d1f)
    have e2: "ev2 = range_request d1 # e2"
      and w2: "w2 = w1\<lparr>errorCount := 0, total := t2,
              down := d1\<lparr>position := wrap64 (position d1 + (r2 - b)),
                         size_d := wrap64 (size_d d1 - (r2 - b))\<rparr>\<rparr>" and x2: "\<not> x2"
      using a2 at2 os2 t1 by simp_all
    have eS: "evS = range_request d0 # (e1 @ e2)"
      and wS: "wS = w\<lparr>errorCount := 0, total := t2,
              down := d0\<lparr>position := wrap64 (position d0 + r2),
                         size_d := wrap64 (size_d d0 - r2)\<rparr>\<rparr>" and xS: "\<not> xS"
      using aS atS osS False by simp_all
    show ?thesis using False
      by (simp add: e2 w2 x2 eS wS xS ev1 rr fe1 fe2 rq dd w1 w1'_def)
  qed
  have reach: "size_d d0 \<le> r2" if "streams_on body2" "size_d d0 \<le> b + body_bytes body2"
  proof -
    have "size_d d0 \<le> fst (snd (read_body th d0 b t1 body2)) \<or>
          fst (snd (read_body th d0 b t1 body2)) = b + body_bytes body2"
      using that(1) b0 b2 p0 ps by (intro read_body_reaches) auto
    then show ?thesis using rb2 that(2) by auto
  qed
  have rc: "receive w1 ins = Go [] w1 ins" using f1 by (simp add: receive_def)
  have fin: "streams_on body2 \<and> size_d d0 \<le> b + body_bytes body2 \<longrightarrow>
      finished w2 \<and> last ev2 = MarkDone (baseOffset + segmentNum d0)"
    using main reach by blast
  have e0: "errorCount w1 = 0" by (simp add: w1 w1'_def)
  show ?thesis
    unfolding d0_def[symmetric] b_def[symmetric]
    using x1 f1 e0 rc main fin dw1(1) by (simp add: d1_def)
qed

lemma read_body_events:
  "\<forall>e \<in> set (fst (read_body th d rd tot body)). \<exists>off bs n. e = WriteOut off bs \<or> e = Update th n"
proof (induction body arbitrary: rd tot)
  case Nil
  then show ?case by simp
next
  case (Cons x body)
  obtain bs e where x: "x = (bs, e)" by (cases x)
  show ?case unfolding x using Cons.IH
    by (auto simp: Let_def split: prod.splits) (metis fst_conv)+
qed

lemma body_bytes_append: "body_bytes (b1 @ b2) = body_bytes b1 + body_bytes b2"
  by (simp add: body_bytes_def)

lemma body_ok_append: "body_ok (b1 @ b2) \<longleftrightarrow> body_ok b1 \<and> body_ok b2"
  by (simp add: body_ok_def)

lemma streams_on_append: "streams_on (b1 @ b2) \<longleftrightarrow> streams_on b1 \<and> streams_on b2"
  by (simp add: streams_on_def)

lemma attempt_short:
  assumes d: "item_ok (down w)" and c: "c = 206 \<or> c = 200"
    and b: "body_ok body" "streams_on body" "body_bytes body < size_d (down w)"
    and rb: "read_body th (down w) 0 (total w) body = (ev, r, t)"
  shows "attempt th w (Response c body) =
           (range_request (down w) # ev,
            w\<lparr>errorCount := 0, total := t,
              down := (down w)\<lparr>position := position (down w) + body_bytes body,
                               size_d := size_d (down w) - body_bytes body\<rparr>\<rparr>, False)"
proof -
  have p0: "0 \<le> position (down w)" and ps: "position (down w) + size_d (down w) + 8192 \<le> 2 ^ 63"
    using d by (simp_all add: item_ok_def)
  have b0: "0 \<le> body_bytes body" by (rule body_bytes_nonneg)
  have "fst (snd (read_body th (down w) 0 (total w) body)) = 0 + body_bytes body"
    using read_body_append[OF b(2) _ _ b(1) p0 ps, of 0 th "total w" "[]"] b(3) by simp
  then have r: "r = body_bytes body" using rb by simp
  have wp: "wrap64 (position (down w) + body_bytes body) = position (down w) + body_bytes body"
    using p0 ps b0 b(3) by (intro wrap64_id) auto
  have ws: "wrap64 (size_d (down w) - body_bytes body) = size_d (down w) - body_bytes body"
    using p0 ps b0 b(3) by (intro wrap64_id) auto
  have "attempt th w (Response c body) = on_success th w body" using c by auto
  then show ?thesis unfolding on_success_cases[OF rb] using b(3) by (simp add: r wp ws)
qed

lemma attempt_complete:
  assumes d: "item_ok (down w)" and c: "c = 206 \<or> c = 200"
    and b: "body_ok body" "streams_on body" "size_d (down w) \<le> body_bytes body"
    and rb: "read_body th (down w) 0 (total w) body = (ev, r, t)"
  shows "attempt th w (Response c body) =
           (range_request (down w) # ev @ [MarkDone (baseOffset + segmentNum (down w))],
            w\<lparr>errorCount := 0, total := t, finished := True\<rparr>, False)"
proof -
  have p0: "0 \<le> position (down w)" and ps: "position (down w) + size_d (down w) + 8192 \<le> 2 ^ 63"
    and sg: "0 \<le> segmentNum (down w)" "segmentNum (down w) < 2 ^ 62"
    using d by (simp_all add: item_ok_def)
  have "size_d (down w) \<le> fst (snd (read_body th (down w) 0 (total w) body)) \<or>
        fst (snd (read_body th (down w) 0 (total w) body)) = 0 + body_bytes body"
    using b(2) b(1) p0 ps by (intro read_body_reaches) auto
  then have r: "size_d (down w) \<le> r" using rb b(3) by auto
  have wm: "wrap64 (baseOffset + segmentNum (down w)) = baseOffset + segmentNum (down w)"
    using sg by (intro wrap64_id) (auto simp: baseOffset_def)
  have "attempt th w (Response c body) = on_success th w body" using c by auto
  then show ?thesis unfolding on_success_cases[OF rb] using r by (simp add: wm)
qed

lemma idle_down_irrelevant:
  assumes "finished w"
  shows "fst (download_segments th (w\<lparr>down := x\<rparr>) ins rs) = fst (download_segments th w ins rs) \<and>
         fst (snd (download_segments th (w\<lparr>down := x\<rparr>) ins rs)) =
         fst (snd (download_segments th w ins rs))"
  using assms by (cases rs; cases ins; simp add: receive_def)

section \<open>C7: partial completion\<close>

text \<open>
  C7. Let an idle worker receive an item whose offsets are within range, and let the first
  response (status 206 or 200) end, without an error, after fewer bytes than the item has
  (\<open>body1\<close>). With this response alone the loop \<open>download_segments\<close> has received
  the item, requested its whole range and written \<open>body1\<close>; it is then waiting for the
  response to its next request, in flight on the unread remainder (offset advanced and
  length reduced by the bytes read), with the failure counter at zero. When the next
  response (\<open>body2\<close>) brings the rest of the bytes, the trace of the loop is: the item
  received, the request for the whole range, the writes and updates of \<open>body1\<close>, the
  request for exactly the remainder, the writes and updates of \<open>body2\<close>, the mark at
  offset \<open>baseOffset + segmentNum\<close>, and then whatever the idle worker does next. No item
  is received between the first request and the mark. The run in which the single response
  \<open>body1 @ body2\<close> arrives has the same trace without the second request, and ends the
  same way.
\<close>

theorem partial_completion:
  assumes w: "finished w" and d: "item_ok d"
    and c: "c1 = 206 \<or> c1 = 200" "c2 = 206 \<or> c2 = 200"
    and b1: "body_ok body1" "streams_on body1" "body_bytes body1 < size_d d"
    and b2: "body_ok body2" "streams_on body2" "size_d d \<le> body_bytes body1 + body_bytes body2"
    and d1: "d1 = d\<lparr>position := position d + body_bytes body1,
                     size_d := size_d d - body_bytes body1\<rparr>"
    and rb1: "read_body th d 0 (total w) body1 = (ev1, r1, t1)"
    and rb2: "read_body th d1 0 t1 body2 = (ev2, r2, t2)"
  shows "download_segments th w (d # ins) [Response c1 body1] =
           (Recv d # Request (position d) (position d + size_d d - 1) # ev1, AwaitResponse,
            w\<lparr>finished := False, down := d1, total := t1, errorCount := 0\<rparr>) \<and>
         fst (download_segments th w (d # ins) (Response c1 body1 # Response c2 body2 # rs)) =
           Recv d # Request (position d) (position d + size_d d - 1) # ev1 @
           Request (position d + body_bytes body1) (position d + size_d d - 1) # ev2 @
           MarkDone (baseOffset + segmentNum d) #
           fst (download_segments th
                  (w\<lparr>finished := True, down := d1, total := t2, errorCount := 0\<rparr>) ins rs) \<and>
         fst (download_segments th w (d # ins) (Response c1 (body1 @ body2) # rs)) =
           Recv d # Request (position d) (position d + size_d d - 1) # ev1 @ ev2 @
           MarkDone (baseOffset + segmentNum d) #
           fst (download_segments th
                  (w\<lparr>finished := True, down := d1, total := t2, errorCount := 0\<rparr>) ins rs) \<and>
         fst (snd (download_segments th w (d # ins) (Response c1 body1 # Response c2 body2 # rs))) =
         fst (snd (download_segments th w (d # ins) (Response c1 (body1 @ body2) # rs))) \<and>
         (\<forall>e \<in> set (ev1 @ ev2). \<exists>off bs n. e = WriteOut off bs \<or> e = Update th n)"
proof -
  define b where "b = body_bytes body1"
  define w0 where "w0 = w\<lparr>down := d, finished := False\<rparr>"
  define w1 where "w1 = w\<lparr>finished := False, down := d1, total := t1, errorCount := 0\<rparr>"
  define w2 where "w2 = w\<lparr>finished := True, down := d1, total := t2, errorCount := 0\<rparr>"
  define wS where "wS = w\<lparr>finished := True, down := d, total := t2, errorCount := 0\<rparr>"
  have b0: "0 \<le> b" unfolding b_def by (rule body_bytes_nonneg)
  have bs: "b < size_d d" using b1(3) by (simp add: b_def)
  have p0: "0 \<le> position d" and ps: "position d + size_d d + 8192 \<le> 2 ^ 63"
    and sg: "0 \<le> segmentNum d" "segmentNum d < 2 ^ 62"
    using d by (simp_all add: item_ok_def)
  have s0: "size_d d \<noteq> 0" using b0 bs by simp
  have d1f: "position d1 = position d + b" "size_d d1 = size_d d - b"
    "segmentNum d1 = segmentNum d" by (simp_all add: d1 b_def)
  have d1ok: "item_ok d1" using p0 ps sg b0 bs by (simp add: item_ok_def d1f)
  have rc: "receive w (d # ins) = Go [Recv d] w0 ins"
    using w s0 by (simp add: receive_def w0_def)
  have rq0: "range_request d = Request (position d) (position d + size_d d - 1)"
    using p0 ps b0 bs by (intro range_request_plain) auto
  have rq1: "range_request d1 = Request (position d + b) (position d + size_d d - 1)"
  proof -
    have "range_request d1 = Request (position d1) (position d1 + size_d d1 - 1)"
      using p0 ps b0 bs d1f by (intro range_request_plain) auto
    then show ?thesis by (simp add: d1f)
  qed
  have a1: "attempt th w0 (Response c1 body1) = (range_request d # ev1, w1, False)"
  proof -
    have "attempt th w0 (Response c1 body1) =
           (range_request (down w0) # ev1,
            w0\<lparr>errorCount := 0, total := t1,
              down := (down w0)\<lparr>position := position (down w0) + body_bytes body1,
                               size_d := size_d (down w0) - body_bytes body1\<rparr>\<rparr>, False)"
      by (rule attempt_short[OF _ c(1) b1(1,2)]) (use d b1(3) rb1 in \<open>simp_all add: w0_def\<close>)
    then show ?thesis by (simp add: w0_def w1_def d1)
  qed
  have rc1: "receive w1 ins = Go [] w1 ins" by (simp add: receive_def w1_def)
  have a2: "attempt th w1 (Response c2 body2) =
      (range_request d1 # ev2 @ [MarkDone (baseOffset + segmentNum d)], w2, False)"
  proof -
    have "attempt th w1 (Response c2 body2) =
           (range_request (down w1) # ev2 @ [MarkDone (baseOffset + segmentNum (down w1))],
            w1\<lparr>errorCount := 0, total := t2, finished := True\<rparr>, False)"
      by (rule attempt_complete[OF _ c(2) b2(1,2)])
         (use d1ok b2(3) rb2 in \<open>simp_all add: w1_def d1f b_def\<close>)
    then show ?thesis by (simp add: w1_def w2_def d1f)
  qed
  have first: "download_segments th w (d # ins) [Response c1 body1] =
           (Recv d # range_request d # ev1, AwaitResponse, w1)"
    by (simp add: rc a1 rc1 del: attempt.simps)
  obtain evs e w3 where k: "download_segments th w2 ins rs = (evs, e, w3)"
    by (cases "download_segments th w2 ins rs") auto
  have two: "download_segments th w (d # ins) (Response c1 body1 # Response c2 body2 # rs) =
      (Recv d # range_request d # ev1 @ range_request d1 # ev2 @
         MarkDone (baseOffset + segmentNum d) # evs, e, w3)"
    by (simp add: rc a1 rc1 a2 k del: attempt.simps)
  obtain e2' r2' t2' where rbd: "read_body th d b t1 body2 = (e2', r2', t2')"
    by (cases "read_body th d b t1 body2") auto
  have sh: "read_body th d1 0 t1 body2 = (e2', r2' - b, t2')"
    unfolding d1 b_def[symmetric]
    using read_body_shift[OF b0 _ b2(1) p0 ps, of 0 th t1] rbd by simp
  have e2: "e2' = ev2" "t2' = t2" using sh rb2 by simp_all
  have r1: "r1 = b"
    using read_body_append[OF b1(2) _ _ b1(1) p0 ps, of 0 th "total w" "[]"] b1(3) rb1
    by (simp add: b_def)
  have rbS: "read_body th d 0 (total w) (body1 @ body2) = (ev1 @ ev2, r2', t2)"
    using read_body_append[OF b1(2) _ _ b1(1) p0 ps, of 0 th "total w" body2] b1(3) rb1 rbd r1 e2
    by simp
  have aS: "attempt th w0 (Response c1 (body1 @ body2)) =
      (range_request d # (ev1 @ ev2) @ [MarkDone (baseOffset + segmentNum d)], wS, False)"
  proof -
    have "attempt th w0 (Response c1 (body1 @ body2)) =
           (range_request (down w0) # (ev1 @ ev2) @ [MarkDone (baseOffset + segmentNum (down w0))],
            w0\<lparr>errorCount := 0, total := t2, finished := True\<rparr>, False)"
      by (rule attempt_complete[OF _ c(1)])
         (use d b1 b2 rbS in \<open>simp_all add: w0_def body_ok_append streams_on_append body_bytes_append\<close>)
    then show ?thesis by (simp add: w0_def wS_def)
  qed
  have w2S: "w2 = wS\<lparr>down := d1\<rparr>" by (simp add: w2_def wS_def)
  have fS: "finished wS" by (simp add: wS_def)
  have kS: "fst (download_segments th wS ins rs) = evs"
    "fst (snd (download_segments th wS ins rs)) = e"
    using idle_down_irrelevant[OF fS, of th d1 ins rs] k by (simp_all add: w2S)
  obtain evs' e' w3' where kk: "download_segments th wS ins rs = (evs', e', w3')"
    by (cases "download_segments th wS ins rs") auto
  have one: "download_segments th w (d # ins) (Response c1 (body1 @ body2) # rs) =
      (Recv d # range_request d # ev1 @ ev2 @ MarkDone (baseOffset + segmentNum d) # evs, e, w3')"
    using kS by (simp add: rc aS kk del: attempt.simps)
  have evs: "\<forall>e \<in> set (ev1 @ ev2). \<exists>off bs n. e = WriteOut off bs \<or> e = Update th n"
    using read_body_events[of th d 0 "total w" body1] read_body_events[of th d1 0 t1 body2]
    by (simp add: rb1 rb2 ball_Un)
  show ?thesis
    unfolding first two one w1_def[symmetric] w2_def[symmetric] k
    using evs by (simp add: rq0 rq1 b_def)
qed

text \<open>Two bytes, then the other two in two reads.\<close>

theorem partial_completion_witness:
  "finished init_worker \<and> item_ok \<lparr>position = 0, size_d = 4, segmentNum = 7\<rparr> \<and>
   body_ok [([1, 2], False)] \<and> streams_on [([1, 2], False)] \<and> body_bytes [([1, 2], False)] < 4 \<and>
   body_ok [([3], False), ([4], True)] \<and> streams_on [([3], False), ([4], True)] \<and>
   4 \<le> body_bytes [([1, 2], False)] + body_bytes [([3], False), ([4], True)] \<and>
   download_segments 0 init_worker [\<lparr>position = 0, size_d = 4, segmentNum = 7\<rparr>]
     [Response 206 [([1, 2], False)]] =
     ([Recv \<lparr>position = 0, size_d = 4, segmentNum = 7\<rparr>, Request 0 3,
       WriteOut 0 [1, 2], Update 0 2], AwaitResponse,
      \<lparr>finished = False, down = \<lparr>position = 2, size_d = 2, segmentNum = 7\<rparr>,
       total = 2, errorCount = 0\<rparr>) \<and>
   download_segments 0 init_worker [\<lparr>position = 0, size_d = 4, segmentNum = 7\<rparr>]
     [Response 206 [([1, 2], False)], Response 206 [([3], False), ([4], True)]] =
     ([Recv \<lparr>position = 0, size_d = 4, segmentNum = 7\<rparr>, Request 0 3,
       WriteOut 0 [1, 2], Update 0 2, Request 2 3,
       WriteOut 2 [3], Update 0 3, WriteOut 3 [4], Update 0 4, MarkDone 263], AwaitInstruction,
      \<lparr>finished = True, down = \<lparr>position = 2, size_d = 2, segmentNum = 7\<rparr>,
       total = 4, errorCount = 0\<rparr>) \<and>
   download_segments 0 init_worker [\<lparr>position = 0, size_d = 4, segmentNum = 7\<rparr>]
     [Response 206 ([([1, 2], False)] @ [([3], False), ([4], True)])] =
     ([Recv \<lparr>position = 0, size_d = 4, segmentNum = 7\<rparr>, Request 0 3,
       WriteOut 0 [1, 2], Update 0 2,
       WriteOut 2 [3], Update 0 3, WriteOut 3 [4], Update 0 4, MarkDone 263], AwaitInstruction,
      \<lparr>finished = True, down = \<lparr>position = 0, size_d = 4, segmentNum = 7\<rparr>,
       total = 4, errorCount = 0\<rparr>)"
proof -
  define d where "d = \<lparr>position = 0, size_d = 4, segmentNum = 7\<rparr>"
  define d1 where "d1 = \<lparr>position = 2, size_d = 2, segmentNum = 7\<rparr>"
  have w: "finished init_worker" by (simp add: init_worker_def)
  have dk: "item_ok d" by (simp add: d_def item_ok_def)
  have c: "(206::int) = 206 \<or> (206::int) = 200" by simp
  have b1: "body_ok [([1, 2::byte], False)]" "streams_on [([1, 2::byte], False)]"
    "body_bytes [([1, 2::byte], False)] < size_d d"
    by (simp_all add: body_ok_def streams_on_def body_bytes_def d_def)
  have b2: "body_ok [([3::byte], False), ([4], True)]" "streams_on [([3::byte], False), ([4], True)]"
    "size_d d \<le> body_bytes [([1, 2::byte], False)] + body_bytes [([3::byte], False), ([4], True)]"
    by (simp_all add: body_ok_def streams_on_def body_bytes_def d_def)
  have e1: "d1 = d\<lparr>position := position d + body_bytes [([1, 2::byte], False)],
                     size_d := size_d d - body_bytes [([1, 2::byte], False)]\<rparr>"
    by (simp add: d_def d1_def body_bytes_def)
  have rb1: "read_body 0 d 0 (total init_worker) [([1, 2], False)] =
      ([WriteOut 0 [1, 2], Update 0 2], 2, 2)"
    by (simp add: d_def init_worker_def wrap64_def)
  have rb2: "read_body 0 d1 0 2 [([3], False), ([4], True)] =
      ([WriteOut 2 [3], Update 0 3, WriteOut 3 [4], Update 0 4], 2, 4)"
    by (simp add: d1_def wrap64_def)
  have "download_segments 0 init_worker (d # []) [Response 206 [([1, 2], False)]] =
           (Recv d # Request (position d) (position d + size_d d - 1) #
              [WriteOut 0 [1, 2], Update 0 2], AwaitResponse,
            init_worker\<lparr>finished := False, down := d1, total := 2, errorCount := 0\<rparr>)"
    using partial_completion[OF w dk c c b1 b2 e1 rb1 rb2, of "[]" "[]"] by blast
  then show ?thesis
    using w dk b1 b2 unfolding d_def d1_def
    by (simp add: init_worker_def receive_def on_success_def range_request_def wrap64_def
        baseOffset_def body_bytes_def)
qed

section \<open>Marks in the trace of a worker\<close>

lemma marks_ok_receive:
  assumes "receive w ins = Go ev w' ins'" "tracks w cur hi" "\<forall>d \<in> set ins. item_ok d"
  shows "\<exists>cur' hi'. (\<forall>rest. marks_ok cur hi (ev @ rest) = marks_ok cur' hi' rest) \<and>
           tracks w' cur' hi' \<and> \<not> finished w' \<and> set ins' \<subseteq> set ins"
proof (cases "finished w")
  case True
  then obtain d where i: "ins = d # ins'" "ev = [Recv d]" "w' = w\<lparr>down := d, finished := False\<rparr>"
    using assms(1) by (auto simp: receive_def split: list.splits if_splits)
  have "item_ok d" using assms(3) i by simp
  then have "tracks w' (Some d) (position d)" by (simp add: tracks_def i)
  moreover have "\<forall>rest. marks_ok cur hi (ev @ rest) = marks_ok (Some d) (position d) rest"
    by (simp add: i)
  ultimately show ?thesis using i by auto
next
  case False
  then have "ev = []" "w' = w" "ins' = ins" using assms(1) by (auto simp: receive_def)
  then show ?thesis using assms(2) False by auto
qed

lemma marks_ok_failure:
  assumes "on_failure w = (ev, w', x)"
  shows "marks_ok cur hi (ev @ rest) = marks_ok cur hi rest \<and> down w' = down w \<and>
         finished w' = finished w"
  using assms by (auto simp: on_failure_def Let_def range_request_def split: if_splits)

lemma tracks_cong:
  "down w' = down w \<Longrightarrow> finished w' = finished w \<Longrightarrow> tracks w' cur hi = tracks w cur hi"
  by (simp add: tracks_def)

lemma marks_ok_skip_request: "marks_ok cur hi (range_request d # es) = marks_ok cur hi es"
  by (simp add: range_request_def)

lemma marks_ok_success:
  assumes os: "on_success th w body = (ev, w', x)" and u: "\<not> finished w"
    and t: "tracks w cur hi" and b: "body_ok body"
  shows "\<exists>cur' hi'. (\<forall>rest. marks_ok cur hi (ev @ rest) = marks_ok cur' hi' rest) \<and>
           tracks w' cur' hi' \<and> \<not> x"
proof -
  define d where "d = down w"
  obtain d0 where c: "cur = Some d0" "hi = position d"
    "position d + size_d d = position d0 + size_d d0" "segmentNum d = segmentNum d0" "item_ok d"
    using t u by (auto simp: tracks_def d_def)
  have p0: "0 \<le> position d" and ps: "position d + size_d d + 8192 \<le> 2 ^ 63"
    and sg: "0 \<le> segmentNum d" "segmentNum d < 2 ^ 62"
    using c(5) by (simp_all add: item_ok_def)
  obtain evs rd tot where rb: "read_body th d 0 (total w) body = (evs, rd, tot)"
    by (cases "read_body th d 0 (total w) body") auto
  have rd0: "0 \<le> rd" using read_body_mono[OF _ b p0 ps, of 0 th "total w"] rb by simp
  have cov: "marks_ok cur (position d + 0) (evs @ rest) = marks_ok cur (position d + rd) rest" for rest
    using marks_ok_read_body[OF _ b p0 ps, of 0 cur th "total w" rest] rb by simp
  have wm: "wrap64 (baseOffset + segmentNum d) = baseOffset + segmentNum d"
    using sg by (intro wrap64_id) (auto simp: baseOffset_def)
  show ?thesis
  proof (cases "size_d d \<le> rd")
    case True
    have r: "ev = range_request d # evs @ [MarkDone (baseOffset + segmentNum d)]"
      "w' = w\<lparr>errorCount := 0, total := tot, finished := True\<rparr>" "\<not> x"
      using os on_success_cases[OF rb[unfolded d_def]] True by (simp_all add: d_def[symmetric] wm)
    have "marks_ok cur hi (ev @ rest) = marks_ok None (position d + rd) rest" for rest
    proof -
      have "marks_ok cur hi (ev @ rest) =
            marks_ok cur (position d + 0) (evs @ MarkDone (baseOffset + segmentNum d) # rest)"
        by (simp add: r marks_ok_skip_request c(2))
      also have "\<dots> = marks_ok cur (position d + rd) (MarkDone (baseOffset + segmentNum d) # rest)"
        by (rule cov)
      also have "\<dots> = marks_ok None (position d + rd) rest"
        using c True by simp
      finally show ?thesis .
    qed
    moreover have "tracks w' None (position d + rd)" by (simp add: tracks_def r)
    ultimately show ?thesis using r(3) by blast
  next
    case False
    have wp: "wrap64 (position d + rd) = position d + rd"
      using p0 ps rd0 False by (intro wrap64_id) auto
    have ws: "wrap64 (size_d d - rd) = size_d d - rd"
      using p0 ps rd0 False by (intro wrap64_id) auto
    have r: "ev = range_request d # evs"
      "w' = w\<lparr>errorCount := 0, total := tot,
               down := d\<lparr>position := position d + rd, size_d := size_d d - rd\<rparr>\<rparr>" "\<not> x"
      using os on_success_cases[OF rb[unfolded d_def]] False
      by (simp_all add: d_def[symmetric] wp ws)
    have "marks_ok cur hi (ev @ rest) = marks_ok cur (position d + rd) rest" for rest
      using cov[of rest] by (simp add: r marks_ok_skip_request c(2))
    moreover have "tracks w' cur (position d + rd)"
      using c p0 ps sg rd0 by (simp add: tracks_def r item_ok_def)
    ultimately show ?thesis using r(3) by blast
  qed
qed

lemma marks_ok_attempt:
  assumes at: "attempt th w r = (ev, w', x)" and u: "\<not> finished w"
    and t: "tracks w cur hi" and b: "response_ok r"
  shows "\<exists>cur' hi'. (\<forall>rest. marks_ok cur hi (ev @ rest) = marks_ok cur' hi' rest) \<and>
           tracks w' cur' hi'"
proof (cases "attempt_failed r")
  case True
  then have "on_failure w = (ev, w', x)" using at by (simp add: attempt_failure)
  then have "(\<forall>rest. marks_ok cur hi (ev @ rest) = marks_ok cur hi rest) \<and> tracks w' cur hi"
    using marks_ok_failure t tracks_cong by metis
  then show ?thesis by blast
next
  case False
  then obtain c body where r: "r = Response c body" "attempt th w r = on_success th w body"
    using attempt_success by blast
  then have "on_success th w body = (ev, w', x)" "body_ok body" using at b by simp_all
  then show ?thesis using marks_ok_success[OF _ u t] by blast
qed

lemma marks_ok_run:
  assumes "\<forall>d \<in> set ins. item_ok d" "\<forall>r \<in> set rs. response_ok r" "tracks w cur hi"
  shows "marks_ok cur hi (fst (download_segments th w ins rs))"
  using assms
proof (induction rs arbitrary: w ins cur hi)
  case Nil
  show ?case
  proof (cases "receive w ins")
    case (Break ev w')
    then obtain d where "ev = [Recv d]"
      by (auto simp: receive_def split: if_splits list.splits)
    then show ?thesis using Break by simp
  next
    case Block
    then show ?thesis by simp
  next
    case (Go ev w' ins')
    then have "ev = [] \<or> (\<exists>d. ev = [Recv d])"
      by (auto simp: receive_def split: if_splits list.splits)
    then show ?thesis using Go by auto
  qed
next
  case (Cons r rs)
  show ?case
  proof (cases "receive w ins")
    case (Break ev w')
    then obtain d where "ev = [Recv d]"
      by (auto simp: receive_def split: if_splits list.splits)
    then show ?thesis using Break by simp
  next
    case Block
    then show ?thesis by simp
  next
    case (Go ev w' ins')
    obtain cur1 hi1 where r1: "\<And>rest. marks_ok cur hi (ev @ rest) = marks_ok cur1 hi1 rest"
      "tracks w' cur1 hi1" "\<not> finished w'" "set ins' \<subseteq> set ins"
      using marks_ok_receive[OF Go Cons.prems(3) Cons.prems(1)] by blast
    obtain ev2 w2 x where at: "attempt th w' r = (ev2, w2, x)"
      by (cases "attempt th w' r") auto
    have rok: "response_ok r" using Cons.prems(2) by simp
    obtain cur2 hi2 where r2: "\<And>rest. marks_ok cur1 hi1 (ev2 @ rest) = marks_ok cur2 hi2 rest"
      "tracks w2 cur2 hi2"
      using marks_ok_attempt[OF at r1(3) r1(2) rok] by blast
    show ?thesis
    proof (cases x)
      case True
      have "fst (download_segments th w ins (r # rs)) = ev @ ev2 @ []"
        using Go at True by simp
      then show ?thesis using r1(1) r2(1) by (simp del: append_Nil2)
    next
      case False
      obtain evs e w3 where ds: "download_segments th w2 ins' rs = (evs, e, w3)"
        by (cases "download_segments th w2 ins' rs") auto
      have "marks_ok cur2 hi2 (fst (download_segments th w2 ins' rs))"
        using Cons.IH[of ins' w2 cur2 hi2] Cons.prems r1(4) r2(2) by auto
      then have "marks_ok cur2 hi2 evs" using ds by simp
      moreover have "fst (download_segments th w ins (r # rs)) = ev @ ev2 @ evs"
        using Go at False ds by simp
      ultimately show ?thesis using r1(1) r2(1) by simp
    qed
  qed
qed

lemma segment_done_mono:
  assumes "segment_done content j"
  shows "segment_done (progress_effect e content) j"
proof (cases e)
  case (MarkDone off)
  show ?thesis
  proof (cases "off < 0")
    case True
    then show ?thesis using assms MarkDone by (simp add: WriteAt_def)
  next
    case False
    then have o: "0 \<le> off" by simp
    have l: "nat baseOffset + j < length content" and v: "content ! (nat baseOffset + j) = finishedSegment"
      using assms by (simp_all add: segment_done_def)
    have l': "nat baseOffset + j < max (length content) (nat off + 1)" using l by simp
    have "WriteAt content off [finishedSegment] ! (nat baseOffset + j) = finishedSegment"
      using WriteAt1_nth[OF o l', of finishedSegment] l v by simp
    moreover have "nat baseOffset + j < length (WriteAt content off [finishedSegment])"
      using l' by (simp add: WriteAt1_length[OF o])
    ultimately show ?thesis using MarkDone by (simp add: segment_done_def)
  qed
qed (use assms in simp_all)

lemma enqueue_segmentNums:
  "map segmentNum (enqueue info (int k) rest) =
     map int (filter (\<lambda>i. \<not> rest ! (i - k)) [k ..< k + length rest])"
proof (induction rest arbitrary: k)
  case Nil
  then show ?case by simp
next
  case (Cons x rest)
  define R where "R = [Suc k ..< Suc k + length rest]"
  have up0: "[k ..< k + Suc m] = k # [Suc k ..< Suc k + m]" for m
    by (simp add: upt_conv_Cons)
  have up: "[k ..< k + length (x # rest)] = k # R"
    unfolding R_def using up0[of "length rest"] by simp
  have IH: "map segmentNum (enqueue info (int k + 1) rest) =
     map int (filter (\<lambda>i. \<not> rest ! (i - Suc k)) R)"
    unfolding R_def using Cons.IH[of "Suc k"] by (simp add: add.commute)
  have f: "filter (\<lambda>i. \<not> (y # rest) ! (i - k)) R = filter (\<lambda>i. \<not> rest ! (i - Suc k)) R" for y
    unfolding R_def by (rule filter_cong) (auto simp: nth_Cons' Suc_diff_le)
  show ?case unfolding up by (simp add: IH f Let_def)
qed

lemma enqueue_distinct: "distinct (map segmentNum (enqueue info 0 segs))"
proof -
  have "map segmentNum (enqueue info (int 0) segs) =
     map int (filter (\<lambda>i. \<not> segs ! (i - 0)) [0 ..< 0 + length segs])"
    by (rule enqueue_segmentNums)
  then show ?thesis by (simp add: distinct_map)
qed

lemma enqueue_pending:
  assumes "d \<in> set (enqueue info 0 segs)"
  shows "\<exists>i < length segs. segmentNum d = int i \<and> \<not> segs ! i"
proof -
  have "map segmentNum (enqueue info (int 0) segs) =
     map int (filter (\<lambda>i. \<not> segs ! (i - 0)) [0 ..< 0 + length segs])"
    by (rule enqueue_segmentNums)
  moreover have "segmentNum d \<in> set (map segmentNum (enqueue info (int 0) segs))"
    using assms by simp
  ultimately have "segmentNum d \<in> int ` {i. i < length segs \<and> \<not> segs ! i}" by auto
  then show ?thesis by auto
qed

lemma tracks_init: "tracks init_worker cur hi"
  by (simp add: tracks_def init_worker_def)

section \<open>Opening the resume state\<close>

lemma findSegmentCount_not_Fail: "findSegmentCount L S \<noteq> Fail e"
  by (simp add: findSegmentCount_def)

lemma read_Fail_iff:
  "(\<exists>e. readProgressInfo g fs pf = Fail e) \<longleftrightarrow>
     files fs pf = None \<or>
     (\<exists>c. files fs pf = Some c \<and>
        (take 4 c \<noteq> magic \<or> Decode g (drop 4 c) = None \<or>
         (\<exists>L S n. Decode g (drop 4 c) = Some (L, S) \<and> findSegmentCount L S = Ok n \<and>
                   n > maxSegments)))"
  by (auto simp: readProgressInfo_def findSegmentCount_not_Fail
      split: option.splits result.splits if_splits)

lemma read_Ok_count:
  assumes "readProgressInfo g fs pf = Ok info"
  shows "\<exists>n. findSegmentCount (Length info) (SegmentSize info) = Ok n \<and> 0 \<le> n \<and>
           n \<le> maxSegments \<and> length (segments info) = nat n"
  using assms
  by (auto simp: readProgressInfo_def read_flags_length
      split: option.splits result.splits if_splits)

lemma clean_start_Ok:
  assumes "\<not> denied fs pf" "\<not> wfail fs pf" "0 \<le> len" "0 < segSize" "len + segSize \<le> 2 ^ 63"
  shows "clean_start g fs pf len segSize =
           Ok (fs\<lparr>files := (files fs)(pf \<mapsto> magic @ Encode g (len, segSize))\<rparr>,
               fresh_info len segSize \<lceil>real_of_int len / real_of_int segSize\<rceil>, True)"
proof -
  have c: "findSegmentCount len segSize = Ok \<lceil>real_of_int len / real_of_int segSize\<rceil>"
    using count_ok[OF assms(3,4,5)] .
  have n: "0 \<le> \<lceil>real_of_int len / real_of_int segSize\<rceil>"
    using assms(3,4) by (simp add: ceiling_divide_eq_div neg_div pos_imp_zdiv_nonneg_iff)
  have b: "beginProgressFile g fs pf len segSize =
      Ok (fs\<lparr>files := (files fs)(pf \<mapsto> magic @ Encode g (len, segSize))\<rparr>)"
    using assms(1,2) by (simp add: beginProgressFile_def os_Create_def)
  show ?thesis using n by (simp add: clean_start_def c b)
qed

section \<open>C4: clean start or recovered state\<close>

text \<open>
  The decision of \<open>setupProgressFile\<close> where it returns. Let the progress file be
  creatable and writable, the expected length and the segment size be within range, and,
  unless \<open>forceClean\<close> is set, let the stored header not make \<open>readProgressInfo\<close>
  panic. Then \<open>setupProgressFile\<close> returns, and it returns \<open>clean = true\<close> exactly
  when \<open>forceClean\<close> is set, or reading the stored state fails, or the stored length
  differs from the expected one, or the stored bitmap length differs from the segment
  count (which never happens for a state that was read with the expected length). Reading
  fails exactly when the file is missing, its magic number is wrong, its header does not
  decode, or its segment count exceeds \<open>maxSegments\<close>. On a clean start the state is
  the fresh all-pending one and the progress file is rewritten; otherwise the state is the
  one read and the file system is unchanged.
\<close>

lemma setup_clean_iff:
  assumes io: "\<not> denied fs pf" "\<not> wfail fs pf"
    and rng: "0 \<le> len" "0 < segSize" "len + segSize \<le> 2 ^ 63"
    and np: "forceClean \<or> (\<forall>p. readProgressInfo g fs pf \<noteq> Panic p)"
  shows "\<exists>fs' info clean.
     setupProgressFile g fs pf len segSize forceClean = Ok (fs', info, clean) \<and>
     (clean \<longleftrightarrow>
        forceClean \<or> (\<exists>e. readProgressInfo g fs pf = Fail e) \<or>
        (\<exists>i. readProgressInfo g fs pf = Ok i \<and>
           (Length i \<noteq> len \<or>
            findSegmentCount len (SegmentSize i) \<noteq> Ok (int (length (segments i)))))) \<and>
     ((\<exists>e. readProgressInfo g fs pf = Fail e) \<longleftrightarrow>
        files fs pf = None \<or>
        (\<exists>c. files fs pf = Some c \<and>
           (take 4 c \<noteq> magic \<or> Decode g (drop 4 c) = None \<or>
            (\<exists>L S n. Decode g (drop 4 c) = Some (L, S) \<and> findSegmentCount L S = Ok n \<and>
                      n > maxSegments)))) \<and>
     (clean \<longrightarrow>
        info = fresh_info len segSize \<lceil>real_of_int len / real_of_int segSize\<rceil> \<and>
        fs' = fs\<lparr>files := (files fs)(pf \<mapsto> magic @ Encode g (len, segSize))\<rparr>) \<and>
     (\<not> clean \<longrightarrow> readProgressInfo g fs pf = Ok info \<and> Length info = len \<and> fs' = fs)"
proof -
  note cs = clean_start_Ok[OF io rng, of g]
  define fsC where "fsC = fs\<lparr>files := (files fs)(pf \<mapsto> magic @ Encode g (len, segSize))\<rparr>"
  define infoC where "infoC = fresh_info len segSize \<lceil>real_of_int len / real_of_int segSize\<rceil>"
  define P where "P = (\<lambda>fs' info clean.
     setupProgressFile g fs pf len segSize forceClean = Ok (fs', info, clean) \<and>
     (clean \<longleftrightarrow>
        forceClean \<or> (\<exists>e. readProgressInfo g fs pf = Fail e) \<or>
        (\<exists>i. readProgressInfo g fs pf = Ok i \<and>
           (Length i \<noteq> len \<or>
            findSegmentCount len (SegmentSize i) \<noteq> Ok (int (length (segments i)))))) \<and>
     ((\<exists>e. readProgressInfo g fs pf = Fail e) \<longleftrightarrow>
        files fs pf = None \<or>
        (\<exists>c. files fs pf = Some c \<and>
           (take 4 c \<noteq> magic \<or> Decode g (drop 4 c) = None \<or>
            (\<exists>L S n. Decode g (drop 4 c) = Some (L, S) \<and> findSegmentCount L S = Ok n \<and>
                      n > maxSegments)))) \<and>
     (clean \<longrightarrow> info = infoC \<and> fs' = fsC) \<and>
     (\<not> clean \<longrightarrow> readProgressInfo g fs pf = Ok info \<and> Length info = len \<and> fs' = fs))"
  have "\<exists>fs' info clean. P fs' info clean"
  proof (cases forceClean)
    case True
    then have "setupProgressFile g fs pf len segSize forceClean = Ok (fsC, infoC, True)"
      using cs by (simp add: setupProgressFile_def fsC_def infoC_def)
    then have "P fsC infoC True" unfolding P_def using True read_Fail_iff[of g fs pf] by simp
    then show ?thesis by blast
  next
    case False
    then have np': "\<And>p. readProgressInfo g fs pf \<noteq> Panic p" using np by simp
    show ?thesis
    proof (cases "readProgressInfo g fs pf")
      case (Ok i)
      obtain n where n: "findSegmentCount (Length i) (SegmentSize i) = Ok n" "0 \<le> n"
        "length (segments i) = nat n"
        using read_Ok_count[OF Ok] by blast
      have ex: "files fs pf \<noteq> None" using Ok
        by (auto simp: readProgressInfo_def split: option.splits)
      show ?thesis
      proof (cases "Length i = len")
        case True
        have fc: "findSegmentCount len (SegmentSize i) = Ok (int (length (segments i)))"
          using n True by simp
        then have "setupProgressFile g fs pf len segSize forceClean = Ok (fs, i, False)"
          using False Ok True ex io by (simp add: setupProgressFile_def resume_start_def)
        then have "P fs i False" unfolding P_def using Ok True False read_Fail_iff[of g fs pf] fc by simp
        then show ?thesis by blast
      next
        case ne: False
        then have "setupProgressFile g fs pf len segSize forceClean = Ok (fsC, infoC, True)"
          using False Ok cs by (simp add: setupProgressFile_def fsC_def infoC_def)
        then have "P fsC infoC True" unfolding P_def using Ok ne read_Fail_iff[of g fs pf] by simp
        then show ?thesis by blast
      qed
    next
      case (Fail e)
      then have "setupProgressFile g fs pf len segSize forceClean = Ok (fsC, infoC, True)"
        using False cs by (simp add: setupProgressFile_def fsC_def infoC_def)
      then have "P fsC infoC True" unfolding P_def using Fail read_Fail_iff[of g fs pf] by simp
      then show ?thesis by blast
    next
      case (Panic p)
      then show ?thesis using np' by simp
    qed
  qed
  then show ?thesis unfolding P_def fsC_def infoC_def .
qed

text \<open>A stored state of the expected length is recovered.\<close>

lemma setup_recovers_stored_state:
  "\<not> denied (empty_fs\<lparr>files := (files empty_fs)(''video.mp4.multidownload'' \<mapsto>
        magic @ Encode sample_gob (2500000, 1000000))\<rparr>) ''video.mp4.multidownload'' \<and>
   \<not> wfail (empty_fs\<lparr>files := (files empty_fs)(''video.mp4.multidownload'' \<mapsto>
        magic @ Encode sample_gob (2500000, 1000000))\<rparr>) ''video.mp4.multidownload'' \<and>
   readProgressInfo sample_gob
     (empty_fs\<lparr>files := (files empty_fs)(''video.mp4.multidownload'' \<mapsto>
        magic @ Encode sample_gob (2500000, 1000000))\<rparr>) ''video.mp4.multidownload'' =
     Ok \<lparr>Length = 2500000, SegmentSize = 1000000, segments = [False, False, False]\<rparr> \<and>
   setupProgressFile sample_gob
     (empty_fs\<lparr>files := (files empty_fs)(''video.mp4.multidownload'' \<mapsto>
        magic @ Encode sample_gob (2500000, 1000000))\<rparr>)
     ''video.mp4.multidownload'' 2500000 1000000 False =
     Ok (empty_fs\<lparr>files := (files empty_fs)(''video.mp4.multidownload'' \<mapsto>
           magic @ Encode sample_gob (2500000, 1000000))\<rparr>,
         \<lparr>Length = 2500000, SegmentSize = 1000000, segments = [False, False, False]\<rparr>, False)"
proof -
  define fs where "fs = empty_fs\<lparr>files := (files empty_fs)(''video.mp4.multidownload'' \<mapsto>
        magic @ Encode sample_gob (2500000, 1000000))\<rparr>"
  define i0 where "i0 = \<lparr>Length = 2500000, SegmentSize = 1000000, segments = [False, False, False]\<rparr>"
  have io: "\<not> denied fs ''video.mp4.multidownload''" "\<not> wfail fs ''video.mp4.multidownload''"
    by (simp_all add: fs_def empty_fs_def)
  have rng: "(0::int) \<le> 2500000" "(0::int) < 1000000" "(2500000::int) + 1000000 \<le> 2 ^ 63"
    by simp_all
  have rf: "read_flags [] 0 3 [False, False, False] = [False, False, False]"
    by (simp add: read_flags.simps)
  have rd: "readProgressInfo sample_gob fs ''video.mp4.multidownload'' = Ok i0"
    by (simp add: fs_def i0_def empty_fs_def readProgressInfo_def
      sample_gob_def be8_def upt_rec of_be8_def wrap64_def magic_def findSegmentCount_def
      quo64_def maxSegments_def baseOffset_def rf numeral_3_eq_3)
  have np: "False \<or> (\<forall>p. readProgressInfo sample_gob fs ''video.mp4.multidownload'' \<noteq> Panic p)"
    by (simp add: rd)
  have fc: "findSegmentCount 2500000 (SegmentSize i0) = Ok (int (length (segments i0)))"
    by (simp add: i0_def findSegmentCount_def quo64_def wrap64_def)
  obtain fs' info clean where r:
    "setupProgressFile sample_gob fs ''video.mp4.multidownload'' 2500000 1000000 False =
       Ok (fs', info, clean)"
    "clean \<longleftrightarrow> False \<or> (\<exists>e. readProgressInfo sample_gob fs ''video.mp4.multidownload'' = Fail e) \<or>
        (\<exists>i. readProgressInfo sample_gob fs ''video.mp4.multidownload'' = Ok i \<and>
           (Length i \<noteq> 2500000 \<or>
            findSegmentCount 2500000 (SegmentSize i) \<noteq> Ok (int (length (segments i)))))"
    "\<not> clean \<longrightarrow> readProgressInfo sample_gob fs ''video.mp4.multidownload'' = Ok info \<and>
        Length info = 2500000 \<and> fs' = fs"
    using setup_clean_iff[OF io rng np] by blast
  have "\<not> clean" using r(2) fc by (simp add: rd) (simp add: i0_def)
  then have "info = i0" "fs' = fs" using r(3) rd by simp_all
  then show ?thesis using r(1) io rd \<open>\<not> clean\<close> unfolding fs_def i0_def by simp
qed

text \<open>
  Where the progress file cannot be created, \<open>setupProgressFile\<close> returns the error of
  \<open>os.Create\<close>, which \<open>download\<close> turns into exit status 1: the fatal I/O error of
  the error model.
\<close>

lemma setup_create_denied:
  "setupProgressFile sample_gob
     (empty_fs\<lparr>denied := (\<lambda>name. name = ''video.mp4.multidownload'')\<rparr>)
     ''video.mp4.multidownload'' 2500000 1000000 True = Fail ErrCreate"
  by (simp add: setupProgressFile_def clean_start_def findSegmentCount_def quo64_def wrap64_def
      beginProgressFile_def os_Create_def empty_fs_def)

text \<open>
  C4 does not hold of the code. \<open>readProgressInfo\<close> checks the magic number, the
  decoder's error and the cap, but computes the segment count from the decoded fields
  before it has looked at them. On a progress file whose header decodes to a segment size
  of zero the division in \<open>findSegmentCount\<close> panics, and on one whose count is negative
  \<open>make([]bool, segmentCount)\<close> panics. With the output file present (so that
  \<open>forceClean\<close> is false) \<open>readProgressInfo\<close> and \<open>setupProgressFile\<close> do not
  return and \<open>download\<close> crashes, where C4 promises a clean start for a prior state
  that is not valid.
\<close>

theorem stored_header_crashes:
  assumes out: "files fs filename \<noteq> None"
    and f: "files fs (progressFilename filename) = Some content" "take 4 content = magic"
    and h: "Decode g (drop 4 content) = Some (L, S)"
    and z: "S = 0 \<or> (\<exists>n. findSegmentCount L S = Ok n \<and> n < 0)"
    and p: "p = (if S = 0 then DivideByZero else MakeSliceLen)"
  shows "readProgressInfo g fs (progressFilename filename) = Panic p \<and>
         setupProgressFile g fs (progressFilename filename) len segSize False = Panic p \<and>
         download g fs len filename numThreads = Crashed p"
proof -
  have r: "readProgressInfo g fs (progressFilename filename) = Panic p"
  proof (cases "S = 0")
    case True
    then show ?thesis using f h p by (simp add: readProgressInfo_def findSegmentCount_def)
  next
    case False
    then obtain n where n: "findSegmentCount L S = Ok n" "n < 0" using z by blast
    then have "\<not> n > maxSegments" by (simp add: maxSegments_def)
    then show ?thesis using f h p n False by (simp add: readProgressInfo_def)
  qed
  have s: "setupProgressFile g fs (progressFilename filename) len segSize' False = Panic p"
    for segSize'
    using r by (simp add: setupProgressFile_def)
  have st: "os_Stat fs filename \<noteq> None" "os_Stat fs (progressFilename filename) \<noteq> None"
    using out f(1) by (simp_all add: os_Stat_def)
  have fc: "(os_Stat fs filename = None) = False" using st(1) by simp
  have "download g fs len filename numThreads = Crashed p"
    using st(2) by (simp add: download_def Let_def fc s[of 1000000])
  then show ?thesis using r s by simp
qed

lemma decode_sample_zero:
  "Decode sample_gob (drop 4 (magic @ Encode sample_gob (2500000, 0))) = Some (2500000, 0)"
  by code_simp

text \<open>A header with segment size 0, beside an output file of three bytes.\<close>

theorem stored_header_crashes_witness:
  "files (empty_fs\<lparr>files := (files empty_fs)(''video.mp4'' \<mapsto> [1, 2, 3],
            ''video.mp4.multidownload'' \<mapsto> magic @ Encode sample_gob (2500000, 0))\<rparr>)
     ''video.mp4'' = Some [1, 2, 3] \<and>
   Decode sample_gob (drop 4 (magic @ Encode sample_gob (2500000, 0))) = Some (2500000, 0) \<and>
   setupProgressFile sample_gob
     (empty_fs\<lparr>files := (files empty_fs)(''video.mp4'' \<mapsto> [1, 2, 3],
            ''video.mp4.multidownload'' \<mapsto> magic @ Encode sample_gob (2500000, 0))\<rparr>)
     ''video.mp4.multidownload'' 2500000 1000000 False = Panic DivideByZero \<and>
   download sample_gob
     (empty_fs\<lparr>files := (files empty_fs)(''video.mp4'' \<mapsto> [1, 2, 3],
            ''video.mp4.multidownload'' \<mapsto> magic @ Encode sample_gob (2500000, 0))\<rparr>)
     2500000 ''video.mp4'' 4 = Crashed DivideByZero"
proof -
  define fs where "fs = empty_fs\<lparr>files := (files empty_fs)(''video.mp4'' \<mapsto> [1, 2, 3],
            ''video.mp4.multidownload'' \<mapsto> magic @ Encode sample_gob (2500000, 0))\<rparr>"
  have pf: "progressFilename ''video.mp4'' = ''video.mp4.multidownload''"
    by (simp add: progressFilename_def)
  have out: "files fs ''video.mp4'' \<noteq> None" by (simp add: fs_def)
  have f: "files fs (progressFilename ''video.mp4'') =
      Some (magic @ Encode sample_gob (2500000, 0))"
    "take 4 (magic @ Encode sample_gob (2500000, 0)) = magic"
    by (simp_all add: fs_def pf magic_def)
  have z: "(0::int) = 0 \<or> (\<exists>n. findSegmentCount 2500000 0 = Ok n \<and> n < 0)" by simp
  have p: "DivideByZero = (if (0::int) = 0 then DivideByZero else MakeSliceLen)" by simp
  show ?thesis
    using stored_header_crashes[OF out f decode_sample_zero z p, of 2500000 1000000 4]
      decode_sample_zero
    unfolding pf fs_def by simp
qed

text \<open>
  The same on closed inputs, for a segment size of zero and for a negative length.
\<close>

lemma read_panics_on_stored_header:
  "readProgressInfo sample_gob
     (empty_fs\<lparr>files := (files empty_fs)(''video.mp4.multidownload'' \<mapsto>
        magic @ Encode sample_gob (2500000, 0))\<rparr>)
     ''video.mp4.multidownload'' = Panic DivideByZero"
  "readProgressInfo sample_gob
     (empty_fs\<lparr>files := (files empty_fs)(''video.mp4.multidownload'' \<mapsto>
        magic @ Encode sample_gob (- 2500001, 1000000))\<rparr>)
     ''video.mp4.multidownload'' = Panic MakeSliceLen"
  by code_simp+

lemma setup_panics_on_stored_header:
  "setupProgressFile sample_gob
     (empty_fs\<lparr>files := (files empty_fs)(''video.mp4.multidownload'' \<mapsto>
        magic @ Encode sample_gob (2500000, 0))\<rparr>)
     ''video.mp4.multidownload'' 2500000 1000000 False = Panic DivideByZero"
  "setupProgressFile sample_gob
     (empty_fs\<lparr>files := (files empty_fs)(''video.mp4.multidownload'' \<mapsto>
        magic @ Encode sample_gob (- 2500001, 1000000))\<rparr>)
     ''video.mp4.multidownload'' 2500000 1000000 False = Panic MakeSliceLen"
  by (simp_all add: setupProgressFile_def read_panics_on_stored_header)

section \<open>The supervisor at startup\<close>

lemma fresh_plan:
  assumes "0 \<le> L" "0 < S" "L + S \<le> 2 ^ 63"
  shows "enqueue (fresh_info L S \<lceil>real_of_int L / real_of_int S\<rceil>) 0
           (segments (fresh_info L S \<lceil>real_of_int L / real_of_int S\<rceil>)) = spec_plan L S"
proof -
  define n where "n = nat \<lceil>real_of_int L / real_of_int S\<rceil>"
  have c0: "0 \<le> \<lceil>real_of_int L / real_of_int S\<rceil>"
    using assms by (simp add: ceiling_divide_eq_div neg_div pos_imp_zdiv_nonneg_iff)
  have n: "int n = (L + S - 1) div S" unfolding n_def using count_bounds(1)[OF assms(1,2)] .
  have b1: "(int 0 + int n) * S < L + S" using count_bounds(2)[OF assms(1,2)] n by simp
  have 2: "enqueue (fresh_info L S (int n)) (int 0) (replicate n False) =
             map (spec_segment L S) [0 ..< 0 + n]"
    by (rule enqueue_fresh[OF assms(2,3) _ _ b1]) (simp_all add: fresh_info_def)
  have cn: "\<lceil>real_of_int L / real_of_int S\<rceil> = int n" using c0 by (simp add: n_def)
  show ?thesis using 2 by (simp add: spec_plan_def cn fresh_info_def n_def[symmetric])
qed

lemma progressFilename_neq: "progressFilename filename \<noteq> filename"
  by (simp add: progressFilename_def)

lemma os_Remove_absent: "files fs name = None \<Longrightarrow> os_Remove fs name = fs"
  by (simp add: os_Remove_def fun_upd_idem)

text \<open>
  C9. If the output file exists with exactly the probed length and there is no progress
  file, \<open>download\<close> returns at once: no worker is started, so no ranged request is sent,
  and the file system is left as it was.
\<close>

theorem already_downloaded:
  assumes "files fs filename = Some content" "int (length content) = len"
    and "files fs (progressFilename filename) = None"
  shows "download g fs len filename numThreads = AlreadyDownloaded fs \<and>
         workers_started (download g fs len filename numThreads) = 0"
  using assms by (simp add: download_def os_Stat_def os_Remove_absent)

text \<open>A complete three-byte download.\<close>

theorem already_downloaded_witness:
  "files (empty_fs\<lparr>files := (files empty_fs)(''video.mp4'' \<mapsto> [1, 2, 3])\<rparr>) ''video.mp4'' =
     Some [1, 2, 3] \<and>
   int (length [1, 2, 3 :: byte]) = 3 \<and>
   files (empty_fs\<lparr>files := (files empty_fs)(''video.mp4'' \<mapsto> [1, 2, 3])\<rparr>)
     (progressFilename ''video.mp4'') = None \<and>
   download sample_gob (empty_fs\<lparr>files := (files empty_fs)(''video.mp4'' \<mapsto> [1, 2, 3])\<rparr>)
     3 ''video.mp4'' 4 =
     AlreadyDownloaded (empty_fs\<lparr>files := (files empty_fs)(''video.mp4'' \<mapsto> [1, 2, 3])\<rparr>)"
proof -
  have h1: "files (empty_fs\<lparr>files := (files empty_fs)(''video.mp4'' \<mapsto> [1, 2, 3])\<rparr>) ''video.mp4'' =
     Some [1, 2, 3]" by simp
  have h2: "int (length [1, 2, 3 :: byte]) = 3" by simp
  have h3: "files (empty_fs\<lparr>files := (files empty_fs)(''video.mp4'' \<mapsto> [1, 2, 3])\<rparr>)
     (progressFilename ''video.mp4'') = None"
    by (simp add: progressFilename_def empty_fs_def)
  show ?thesis using already_downloaded[OF h1 h2 h3, of sample_gob 4] h1 h2 h3 by simp
qed

lemma download_clean:
  assumes cs: "setupProgressFile g fs (progressFilename filename) len 1000000
                 (os_Stat fs filename = None) =
               clean_start g fs (progressFilename filename) len 1000000"
    and ns: "\<not> (os_Stat fs filename = Some len \<and> os_Stat fs (progressFilename filename) = None)"
    and io: "\<not> denied fs (progressFilename filename)" "\<not> wfail fs (progressFilename filename)"
      "\<not> denied fs filename"
    and rng: "0 \<le> len" "len + 1000000 \<le> 2 ^ 63"
  shows "download g fs len filename numThreads =
     Started
       (fs\<lparr>files := (files fs)(progressFilename filename \<mapsto> magic @ Encode g (len, 1000000),
                                 filename \<mapsto> [])\<rparr>)
       (fresh_info len 1000000 \<lceil>real_of_int len / real_of_int 1000000\<rceil>) True numThreads
       (spec_plan len 1000000 @
        replicate numThreads
          (poison (fresh_info len 1000000 \<lceil>real_of_int len / real_of_int 1000000\<rceil>)))"
proof -
  have c: "clean_start g fs (progressFilename filename) len 1000000 =
      Ok (fs\<lparr>files := (files fs)(progressFilename filename \<mapsto> magic @ Encode g (len, 1000000))\<rparr>,
          fresh_info len 1000000 \<lceil>real_of_int len / real_of_int 1000000\<rceil>, True)"
    using clean_start_Ok[OF io(1,2) rng(1) _ rng(2), of g] by simp
  have p: "enqueue (fresh_info len 1000000 \<lceil>real_of_int len / real_of_int 1000000\<rceil>) 0
           (segments (fresh_info len 1000000 \<lceil>real_of_int len / real_of_int 1000000\<rceil>)) =
           spec_plan len 1000000"
    using fresh_plan[OF rng(1) _ rng(2)] by simp
  show ?thesis
    using ns io(3)
    by (simp add: download_def Let_def cs c open_output_def instructions_def p
        del: of_int_numeral)
qed



lemma plan_3000000:
  "\<lceil>real_of_int 3000000 / real_of_int 1000000\<rceil> = 3"
  "spec_plan 3000000 1000000 =
     [\<lparr>position = 0, size_d = 1000000, segmentNum = 0\<rparr>,
      \<lparr>position = 1000000, size_d = 1000000, segmentNum = 1\<rparr>,
      \<lparr>position = 2000000, size_d = 1000000, segmentNum = 2\<rparr>]"
proof -
  show c: "\<lceil>real_of_int 3000000 / real_of_int 1000000\<rceil> = 3" by simp
  show "spec_plan 3000000 1000000 =
     [\<lparr>position = 0, size_d = 1000000, segmentNum = 0\<rparr>,
      \<lparr>position = 1000000, size_d = 1000000, segmentNum = 1\<rparr>,
      \<lparr>position = 2000000, size_d = 1000000, segmentNum = 2\<rparr>]"
    unfolding spec_plan_def c by (simp add: spec_segment_def upt_rec)
qed





text \<open>The flags \<open>readProgressInfo\<close> returns are the entries of the bitmap.\<close>

lemma read_segments_done:
  assumes "readProgressInfo g fs pf = Ok info" "files fs pf = Some content"
    "j < length (segments info)"
  shows "segments info ! j = segment_done content j"
proof -
  obtain L S n where d: "Decode g (drop 4 content) = Some (L, S)" "findSegmentCount L S = Ok n"
    "\<not> n > maxSegments" "\<not> n < 0"
    "info = \<lparr>Length = L, SegmentSize = S,
             segments = read_flags (drop (nat baseOffset) content) 0 n (replicate (nat n) False)\<rparr>"
    using assms(1,2)
    by (auto simp: readProgressInfo_def split: option.splits result.splits if_splits)
  have j: "j < nat n" using assms(3) d(5) by (simp add: read_flags_length)
  have "read_flags (drop (nat baseOffset) content) 0 n (replicate (nat n) False) ! j =
          (if nat 0 \<le> j \<and> j < nat 0 + length (drop (nat baseOffset) content)
           then drop (nat baseOffset) content ! (j - nat 0) = finishedSegment
           else replicate (nat n) False ! j)"
    using j d(3,4) by (intro read_flags_nth) (auto simp: maxSegments_def)
  then show ?thesis using j d(5)
    by (auto simp: segment_done_def add.commute)
qed

text \<open>
  On a state that was recovered, the enqueue loop hands out the pending segments of the
  plan, in ascending order.
\<close>

lemma enqueue_plan:
  assumes "0 < S" "L + S \<le> 2 ^ 63" "Length info = L" "SegmentSize info = S"
    and "(int k + int (length segs)) * S < L + S"
  shows "enqueue info (int k) segs =
           map (spec_segment L S) (filter (\<lambda>i. \<not> segs ! (i - k)) [k ..< k + length segs])"
  using assms(5)
proof (induction segs arbitrary: k)
  case Nil
  then show ?case by simp
next
  case (Cons x segs)
  define R where "R = [Suc k ..< Suc k + length segs]"
  have m0: "0 \<le> int (length segs) * S" using assms(1) by simp
  have kS: "int k * S < L" using Cons.prems m0 by (simp add: algebra_simps)
  have nn: "0 \<le> int k * S" using assms(1) by simp
  have w1: "wrap64 (int k * S) = int k * S"
    using kS nn assms(1,2) by (intro wrap64_id; linarith)
  have w2: "wrap64 (int k * S + S) = int k * S + S"
    using kS nn assms(1,2) by (intro wrap64_id; linarith)
  have w3: "wrap64 (L - int k * S) = L - int k * S"
    using kS nn assms(1,2) by (intro wrap64_id; linarith)
  have step: "(int (Suc k) + int (length segs)) * S < L + S"
    using Cons.prems by (simp add: algebra_simps)
  have up0: "[k ..< k + Suc m] = k # [Suc k ..< Suc k + m]" for m
    by (simp add: upt_conv_Cons)
  have up: "[k ..< k + length (x # segs)] = k # R"
    unfolding R_def using up0[of "length segs"] by simp
  have IH: "enqueue info (int k + 1) segs =
     map (spec_segment L S) (filter (\<lambda>i. \<not> segs ! (i - Suc k)) R)"
    unfolding R_def using Cons.IH[OF step] by (simp add: add.commute)
  have f: "filter (\<lambda>i. \<not> (y # segs) ! (i - k)) R = filter (\<lambda>i. \<not> segs ! (i - Suc k)) R" for y
    unfolding R_def by (rule filter_cong) (auto simp: nth_Cons' Suc_diff_le)
  have hd: "\<lparr>position = int k * S,
             size_d = (if int k * S + S > L then L - int k * S else S),
             segmentNum = int k\<rparr> = spec_segment L S k"
    by (simp add: spec_segment_def min_def algebra_simps)
  have e1: "enqueue info (int k) (x # segs) =
      (if x then enqueue info (int k + 1) segs
       else \<lparr>position = int k * S,
              size_d = (if int k * S + S > L then L - int k * S else S),
              segmentNum = int k\<rparr> # enqueue info (int k + 1) segs)"
    using w1 w2 w3 assms(3,4) by (simp add: Let_def split del: if_split cong: if_cong)
  show ?case unfolding up e1 hd IH by (simp add: f)
qed

text \<open>Every segment of the plan is an item whose offsets are within range.\<close>

lemma spec_segment_item_ok:
  assumes "0 < S" "L + 8192 \<le> 2 ^ 63" "int i * S < L" "int i < 2 ^ 62"
  shows "item_ok (spec_segment L S i)"
proof -
  have "0 \<le> int i * S" using assms(1) by simp
  then show ?thesis using assms by (simp add: item_ok_def spec_segment_def min_def)
qed

text \<open>The other copy of the program keeps the content of an existing output file.\<close>

lemma open_output_part000_keeps:
  "files fs filename = Some content \<Longrightarrow> \<not> denied fs filename \<Longrightarrow>
     open_output_part000 fs filename = Some fs"
  by (simp add: open_output_part000_def)


section \<open>C3: a segment is marked once, after its writes\<close>

lemma mark_sets_entry:
  "segment_done (progress_effect (MarkDone (baseOffset + int j)) content) k \<longleftrightarrow>
     k = j \<or> segment_done content k"
proof -
  define off where "off = baseOffset + int j"
  have o: "0 \<le> off" by (simp add: off_def baseOffset_def)
  have n: "nat off = nat baseOffset + j" by (simp add: off_def baseOffset_def)
  have l: "length (WriteAt content off [finishedSegment]) = max (length content) (nat off + 1)"
    by (rule WriteAt1_length[OF o])
  show ?thesis
  proof (cases "nat baseOffset + k < max (length content) (nat off + 1)")
    case True
    have v: "WriteAt content off [finishedSegment] ! (nat baseOffset + k) =
        (if nat baseOffset + k = nat off then finishedSegment
         else if nat baseOffset + k < length content then content ! (nat baseOffset + k) else 0)"
      by (rule WriteAt1_nth[OF o True])
    show ?thesis
      unfolding off_def[symmetric]
      using True finishedSegment_nonzero
      by (auto simp: segment_done_def l v n)
  next
    case False
    then show ?thesis
      unfolding off_def[symmetric] by (auto simp: segment_done_def l n)
  qed
qed

lemma setup_Ok_cases:
  assumes "setupProgressFile g fs pf len segSize fc = Ok (fs', info', clean)"
  shows "if clean
         then list_all Not (segments info') \<and> Length info' = len \<and> SegmentSize info' = segSize \<and>
              files fs' pf = Some (magic @ Encode g (len, segSize))
         else fs' = fs \<and> readProgressInfo g fs pf = Ok info' \<and> \<not> fc"
proof -
  have cs: "list_all Not (segments i) \<and> Length i = len \<and> SegmentSize i = segSize \<and>
      files f pf = Some (magic @ Encode g (len, segSize)) \<and> c"
    if "clean_start g fs pf len segSize = Ok (f, i, c)" for f i c
    using that
    by (auto simp: clean_start_def beginProgressFile_def os_Create_def fresh_info_def list_all_iff
        split: result.splits option.splits if_splits)
  have rs: "f = fs \<and> i = i0 \<and> \<not> c" if "resume_start fs pf i0 = Ok (f, i, c)" for f i c i0
    using that by (auto simp: resume_start_def split: if_splits)
  show ?thesis
  proof (cases fc)
    case True
    then have "clean_start g fs pf len segSize = Ok (fs', info', clean)"
      using assms by (simp add: setupProgressFile_def)
    then show ?thesis using cs by auto
  next
    case False
    show ?thesis
    proof (cases "readProgressInfo g fs pf")
      case (Ok i0)
      consider (a) "clean_start g fs pf len segSize = Ok (fs', info', clean)"
        | (b) "resume_start fs pf i0 = Ok (fs', info', clean)"
        using assms False Ok
        by (auto simp: setupProgressFile_def split: if_splits result.splits)
      then show ?thesis
      proof cases
        case a
        then show ?thesis using cs by auto
      next
        case b
        then show ?thesis using rs[OF b] Ok False by auto
      qed
    next
      case (Fail e)
      then have "clean_start g fs pf len segSize = Ok (fs', info', clean)"
        using assms False by (simp add: setupProgressFile_def)
      then show ?thesis using cs by auto
    next
      case (Panic p)
      then show ?thesis using assms False by (simp add: setupProgressFile_def)
    qed
  qed
qed

text \<open>
  C3, as amended. In every run of a worker, on items whose offsets are within range and
  with reads of at most a buffer, every mark is the mark of the item received last, is
  preceded by writes that cover the whole range of that item without a gap, and is the
  only mark for that receipt. No event of a worker turns a done entry of the bitmap into a
  pending one, and the mark at offset \<open>baseOffset + j\<close> sets entry \<open>j\<close> and changes
  no other entry. The supervisor hands out only pending segments, and each of them once.
  When \<open>setupProgressFile\<close> resumes, it leaves the progress file as it is and returns
  the state read from it; when it starts clean, it replaces the progress file by the bare
  header and returns a state with every entry pending, so the done entries of an earlier
  run are pending again.
\<close>

theorem marks_justified:
  assumes "\<forall>d \<in> set ins. item_ok d" "\<forall>r \<in> set rs. response_ok r"
  shows "marks_ok None 0 (fst (download_segments th init_worker ins rs)) \<and>
         (\<forall>e content j. segment_done content j \<longrightarrow> segment_done (progress_effect e content) j) \<and>
         (\<forall>content j k. segment_done (progress_effect (MarkDone (baseOffset + int j)) content) k \<longleftrightarrow>
            k = j \<or> segment_done content k) \<and>
         distinct (map segmentNum (enqueue info 0 (segments info))) \<and>
         (\<forall>d \<in> set (enqueue info 0 (segments info)).
            \<exists>i < length (segments info). segmentNum d = int i \<and> \<not> segments info ! i) \<and>
         (\<forall>fs' info' clean.
            setupProgressFile g fs pf len segSize fc = Ok (fs', info', clean) \<longrightarrow>
            (if clean
             then list_all Not (segments info') \<and>
                  files fs' pf = Some (magic @ Encode g (len, segSize))
             else fs' = fs \<and> readProgressInfo g fs pf = Ok info'))"
proof -
  have 6: "\<forall>fs' info' clean.
            setupProgressFile g fs pf len segSize fc = Ok (fs', info', clean) \<longrightarrow>
            (if clean
             then list_all Not (segments info') \<and>
                  files fs' pf = Some (magic @ Encode g (len, segSize))
             else fs' = fs \<and> readProgressInfo g fs pf = Ok info')"
  proof (intro allI impI)
    fix fs' info' clean
    assume "setupProgressFile g fs pf len segSize fc = Ok (fs', info', clean)"
    from setup_Ok_cases[OF this]
    show "if clean
          then list_all Not (segments info') \<and> files fs' pf = Some (magic @ Encode g (len, segSize))
          else fs' = fs \<and> readProgressInfo g fs pf = Ok info'"
      by (simp split: if_splits)
  qed
  show ?thesis
    using marks_ok_run[OF assms tracks_init] segment_done_mono mark_sets_entry enqueue_distinct
      enqueue_pending 6
    by blast
qed

text \<open>A segment of four bytes fetched in two parts with a failure in between.\<close>

theorem marks_justified_witness:
  "item_ok \<lparr>position = 0, size_d = 4, segmentNum = 0\<rparr> \<and>
   item_ok \<lparr>position = 4, size_d = 0, segmentNum = 0\<rparr> \<and>
   response_ok (Response 206 [([1, 2], False)]) \<and> response_ok TransportError \<and>
   response_ok (Response 206 [([3, 4], False)]) \<and>
   fst (download_segments 0 init_worker
          [\<lparr>position = 0, size_d = 4, segmentNum = 0\<rparr>,
           \<lparr>position = 4, size_d = 0, segmentNum = 0\<rparr>]
          [Response 206 [([1, 2], False)], TransportError, Response 206 [([3, 4], False)]]) =
     [Recv \<lparr>position = 0, size_d = 4, segmentNum = 0\<rparr>, Request 0 3,
      WriteOut 0 [1, 2], Update 0 2, Request 2 3, Request 2 3,
      WriteOut 2 [3, 4], Update 0 4, MarkDone 256,
      Recv \<lparr>position = 4, size_d = 0, segmentNum = 0\<rparr>] \<and>
   marks_ok None 0
     [Recv \<lparr>position = 0, size_d = 4, segmentNum = 0\<rparr>, Request 0 3,
      WriteOut 0 [1, 2], Update 0 2, Request 2 3, Request 2 3,
      WriteOut 2 [3, 4], Update 0 4, MarkDone 256,
      Recv \<lparr>position = 4, size_d = 0, segmentNum = 0\<rparr>]"
proof -
  have h1: "\<forall>d \<in> set [\<lparr>position = 0, size_d = 4, segmentNum = 0\<rparr>,
                \<lparr>position = 4, size_d = 0, segmentNum = 0\<rparr>]. item_ok d"
    by (simp add: item_ok_def)
  have h2: "\<forall>r \<in> set [Response 206 [([1, 2::byte], False)], TransportError,
                Response 206 [([3, 4], False)]]. response_ok r"
    by (simp add: body_ok_def)
  have run: "fst (download_segments 0 init_worker
          [\<lparr>position = 0, size_d = 4, segmentNum = 0\<rparr>,
           \<lparr>position = 4, size_d = 0, segmentNum = 0\<rparr>]
          [Response 206 [([1, 2], False)], TransportError, Response 206 [([3, 4], False)]]) =
     [Recv \<lparr>position = 0, size_d = 4, segmentNum = 0\<rparr>, Request 0 3,
      WriteOut 0 [1, 2], Update 0 2, Request 2 3, Request 2 3,
      WriteOut 2 [3, 4], Update 0 4, MarkDone 256,
      Recv \<lparr>position = 4, size_d = 0, segmentNum = 0\<rparr>]"
    by (simp add: init_worker_def receive_def on_success_def on_failure_def range_request_def
        wrap64_def baseOffset_def)
  have h3: "item_ok \<lparr>position = 0, size_d = 4, segmentNum = 0\<rparr>"
    "item_ok \<lparr>position = 4, size_d = 0, segmentNum = 0\<rparr>"
    "response_ok (Response 206 [([1, 2], False)])" "response_ok TransportError"
    "response_ok (Response 206 [([3, 4], False)])"
    by (simp_all add: item_ok_def body_ok_def)
  show ?thesis
    using marks_justified[OF h1 h2, where th = 0] h3 unfolding run by blast
qed

lemma read_marked_state:
  "readProgressInfo sample_gob
     (empty_fs\<lparr>files := (files empty_fs)(''video.mp4'' \<mapsto> [1, 2, 3],
         ''video.mp4.multidownload'' \<mapsto>
            magic @ Encode sample_gob (2500000, 1000000) @ replicate 236 0 @ [0x59, 0x59])\<rparr>)
     ''video.mp4.multidownload'' =
     Ok \<lparr>Length = 2500000, SegmentSize = 1000000, segments = [True, True, False]\<rparr>"
  "readProgressInfo sample_gob
     (empty_fs\<lparr>files := (files empty_fs)(
         ''video.mp4.multidownload'' \<mapsto> magic @ Encode sample_gob (3000000, 1000000),
         ''video.mp4'' \<mapsto> [])\<rparr>)
     ''video.mp4.multidownload'' =
     Ok \<lparr>Length = 3000000, SegmentSize = 1000000, segments = [False, False, False]\<rparr>"
  by code_simp+

text \<open>
  C3 as stated fails at a clean start. The progress file holds a state for 2,500,000
  bytes with the entries 0 and 1 done; the probed length is 3,000,000. \<open>download\<close>
  rewrites the progress file, and the entries 0 and 1 of the state, in memory and as read
  back from the file, are pending.
\<close>

theorem clean_start_reverts_counterexample:
  "readProgressInfo sample_gob
     (empty_fs\<lparr>files := (files empty_fs)(''video.mp4'' \<mapsto> [1, 2, 3],
         ''video.mp4.multidownload'' \<mapsto>
            magic @ Encode sample_gob (2500000, 1000000) @ replicate 236 0 @ [0x59, 0x59])\<rparr>)
     ''video.mp4.multidownload'' =
     Ok \<lparr>Length = 2500000, SegmentSize = 1000000, segments = [True, True, False]\<rparr> \<and>
   download sample_gob
     (empty_fs\<lparr>files := (files empty_fs)(''video.mp4'' \<mapsto> [1, 2, 3],
         ''video.mp4.multidownload'' \<mapsto>
            magic @ Encode sample_gob (2500000, 1000000) @ replicate 236 0 @ [0x59, 0x59])\<rparr>)
     3000000 ''video.mp4'' 1 =
     Started
       (empty_fs\<lparr>files := (files empty_fs)(
           ''video.mp4.multidownload'' \<mapsto> magic @ Encode sample_gob (3000000, 1000000),
           ''video.mp4'' \<mapsto> [])\<rparr>)
       \<lparr>Length = 3000000, SegmentSize = 1000000, segments = [False, False, False]\<rparr>
       True 1
       [\<lparr>position = 0, size_d = 1000000, segmentNum = 0\<rparr>,
        \<lparr>position = 1000000, size_d = 1000000, segmentNum = 1\<rparr>,
        \<lparr>position = 2000000, size_d = 1000000, segmentNum = 2\<rparr>,
        \<lparr>position = 3000000, size_d = 0, segmentNum = 0\<rparr>] \<and>
   readProgressInfo sample_gob
     (empty_fs\<lparr>files := (files empty_fs)(
         ''video.mp4.multidownload'' \<mapsto> magic @ Encode sample_gob (3000000, 1000000),
         ''video.mp4'' \<mapsto> [])\<rparr>)
     ''video.mp4.multidownload'' =
     Ok \<lparr>Length = 3000000, SegmentSize = 1000000, segments = [False, False, False]\<rparr>"
proof -
  define fs where "fs = empty_fs\<lparr>files := (files empty_fs)(''video.mp4'' \<mapsto> [1, 2, 3],
         ''video.mp4.multidownload'' \<mapsto>
            magic @ Encode sample_gob (2500000, 1000000) @ replicate 236 0 @ [0x59, 0x59])\<rparr>"
  have pf: "progressFilename ''video.mp4'' = ''video.mp4.multidownload''"
    by (simp add: progressFilename_def)
  have rd: "readProgressInfo sample_gob fs (progressFilename ''video.mp4'') =
     Ok \<lparr>Length = 2500000, SegmentSize = 1000000, segments = [True, True, False]\<rparr>"
    unfolding pf fs_def by (rule read_marked_state(1))
  have cs: "setupProgressFile sample_gob fs (progressFilename ''video.mp4'') 3000000 1000000
                 (os_Stat fs ''video.mp4'' = None) =
               clean_start sample_gob fs (progressFilename ''video.mp4'') 3000000 1000000"
    using rd by (simp add: setupProgressFile_def)
  have ns: "\<not> (os_Stat fs ''video.mp4'' = Some 3000000 \<and>
               os_Stat fs (progressFilename ''video.mp4'') = None)"
    by (simp add: os_Stat_def fs_def)
  have io: "\<not> denied fs (progressFilename ''video.mp4'')"
    "\<not> wfail fs (progressFilename ''video.mp4'')" "\<not> denied fs ''video.mp4''"
    by (simp_all add: fs_def empty_fs_def)
  have rng: "(0::int) \<le> 3000000" "(3000000::int) + 1000000 \<le> 2 ^ 63" by simp_all
  have fu: "fs\<lparr>files := (files fs)(progressFilename ''video.mp4'' \<mapsto>
                magic @ Encode sample_gob (3000000, 1000000), ''video.mp4'' \<mapsto> [])\<rparr> =
            empty_fs\<lparr>files := (files empty_fs)(
               ''video.mp4.multidownload'' \<mapsto> magic @ Encode sample_gob (3000000, 1000000),
               ''video.mp4'' \<mapsto> [])\<rparr>"
    unfolding pf fs_def by (simp add: fun_upd_twist)
  have dl: "download sample_gob fs 3000000 ''video.mp4'' 1 =
     Started
       (empty_fs\<lparr>files := (files empty_fs)(
           ''video.mp4.multidownload'' \<mapsto> magic @ Encode sample_gob (3000000, 1000000),
           ''video.mp4'' \<mapsto> [])\<rparr>)
       \<lparr>Length = 3000000, SegmentSize = 1000000, segments = [False, False, False]\<rparr>
       True 1
       [\<lparr>position = 0, size_d = 1000000, segmentNum = 0\<rparr>,
        \<lparr>position = 1000000, size_d = 1000000, segmentNum = 1\<rparr>,
        \<lparr>position = 2000000, size_d = 1000000, segmentNum = 2\<rparr>,
        \<lparr>position = 3000000, size_d = 0, segmentNum = 0\<rparr>]"
    using download_clean[OF cs ns io rng, of 1]
    unfolding plan_3000000 fu
    by (simp add: fresh_info_def poison_def numeral_3_eq_3)
  show ?thesis
    using read_marked_state dl unfolding fs_def by simp
qed

end
